theory Spec2Isabelle
  imports Main "HOL-Library.AList" "HOL-Library.Multiset" "HOL-Library.Sublist"
begin

section \<open>Data model\<close>

text \<open>
  The seating system of \<^verbatim>\<open>src/models\<close>: students, rooms with a grid of optional
  occupants, the exam session holding a roster and a room list, and the allocator.
  Python integers are \<^typ>\<open>int\<close> (room dimensions may be zero or negative); list
  cursors, which start at zero and only grow, are \<^typ>\<open>nat\<close>. A Python method that
  mutates its object returns the outcome together with the object's state after the call,
  so that a raise keeps whatever was mutated before it. Methods that only read return
  \<open>error + value\<close>. Room and student objects are taken to be distinct objects (the
  same room is not registered twice in one session).
\<close>

datatype error = IndexError

type_synonym 'a result = "error + 'a"

text \<open>\<^verbatim>\<open>utils/constants.py\<close>: the static branch table.\<close>

definition BRANCH_CODES :: "(string \<times> string) list" where
  "BRANCH_CODES =
     [(''01'', ''CIV''), (''02'', ''EEE''), (''03'', ''MECH''), (''04'', ''ECE''),
      (''05'', ''CSE''), (''12'', ''IT''), (''21'', ''AERO''), (''66'', ''CSM''),
      (''27'', ''XYZ'')]"

text \<open>\<^verbatim>\<open>models/student.py\<close>. A branch name may be \<^verbatim>\<open>None\<close>: the constructor keeps the
  argument as it is when the hall ticket does not have ten characters.\<close>

record student =
  hallticket_no :: string
  year :: "int option"
  semester :: "int option"
  regulation :: "string option"
  branch_name :: "string option"

text \<open>\<^verbatim>\<open>Student._get_branch_from_hallticket\<close>; the slice \<^verbatim>\<open>[6:8]\<close> is
  \<open>take 2 (drop 6 _)\<close>.\<close>

definition get_branch_from_hallticket :: "string \<Rightarrow> string" where
  "get_branch_from_hallticket h =
     (if length h = 10 then
        (let branch_code = take 2 (drop 6 h) in
         case map_of BRANCH_CODES branch_code of
           Some label \<Rightarrow> label
         | None \<Rightarrow> '''')
      else '''')"

text \<open>\<^verbatim>\<open>Student.__init__\<close>.\<close>

definition Student ::
  "string \<Rightarrow> int option \<Rightarrow> int option \<Rightarrow> string option \<Rightarrow> string option \<Rightarrow> student" where
  "Student h y sem reg bn =
     \<lparr>hallticket_no = h, year = y, semester = sem, regulation = reg,
      branch_name = (if bn = None \<and> length h = 10
                     then Some (get_branch_from_hallticket h) else bn)\<rparr>"

text \<open>\<^verbatim>\<open>models/room.py\<close>. A seat holds a student or \<^verbatim>\<open>None\<close>.\<close>

type_synonym seat = "student option"

record room =
  room_no :: string
  rows :: int
  columns :: int
  seating_grid :: "seat list list"

text \<open>\<^verbatim>\<open>range(n)\<close> has \<open>nat n\<close> elements, none when \<open>n \<le> 0\<close>.\<close>

definition empty_grid :: "int \<Rightarrow> int \<Rightarrow> seat list list" where
  "empty_grid r c = replicate (nat r) (replicate (nat c) None)"

definition Room :: "string \<Rightarrow> int \<Rightarrow> int \<Rightarrow> room" where
  "Room no r c = \<lparr>room_no = no, rows = r, columns = c, seating_grid = empty_grid r c\<rparr>"

definition capacity :: "room \<Rightarrow> int" where
  "capacity rm = rows rm * columns rm"

text \<open>\<^verbatim>\<open>Room.set_seat\<close>: the bounds check raises before anything is written. Past the
  check both indices are non-negative, and Python's own list indexing raises
  \<^verbatim>\<open>IndexError\<close> when the grid is shorter than the declared extent.\<close>

definition set_seat :: "room \<Rightarrow> int \<Rightarrow> int \<Rightarrow> seat \<Rightarrow> unit result \<times> room" where
  "set_seat rm row column st =
     (if row < 0 \<or> row \<ge> rows rm \<or> column < 0 \<or> column \<ge> columns rm
      then (Inl IndexError, rm)
      else let g = seating_grid rm in
        if nat row \<ge> length g \<or> nat column \<ge> length (g ! nat row)
        then (Inl IndexError, rm)
        else (Inr (), rm\<lparr>seating_grid := g[nat row := (g ! nat row)[nat column := st]]\<rparr>))"

definition get_seat :: "room \<Rightarrow> int \<Rightarrow> int \<Rightarrow> seat result" where
  "get_seat rm row column =
     (if row < 0 \<or> row \<ge> rows rm \<or> column < 0 \<or> column \<ge> columns rm
      then Inl IndexError
      else let g = seating_grid rm in
        if nat row \<ge> length g \<or> nat column \<ge> length (g ! nat row)
        then Inl IndexError
        else Inr (g ! nat row ! nat column))"

definition is_seat_empty :: "room \<Rightarrow> int \<Rightarrow> int \<Rightarrow> bool result" where
  "is_seat_empty rm row column =
     (case get_seat rm row column of Inl e \<Rightarrow> Inl e | Inr st \<Rightarrow> Inr (st = None))"

definition clear_all_seats :: "room \<Rightarrow> room" where
  "clear_all_seats rm = rm\<lparr>seating_grid := empty_grid (rows rm) (columns rm)\<rparr>"

text \<open>A \<^verbatim>\<open>for\<close> loop over a list, threading the mutable state; a raise in the body ends
  the loop with the state reached so far.\<close>

fun for_each :: "'a list \<Rightarrow> ('a \<Rightarrow> 's \<Rightarrow> unit result \<times> 's) \<Rightarrow> 's \<Rightarrow> unit result \<times> 's" where
  "for_each [] body s = (Inr (), s)"
| "for_each (x # xs) body s =
     (case body x s of
        (Inl e, s') \<Rightarrow> (Inl e, s')
      | (Inr _, s') \<Rightarrow> for_each xs body s')"

text \<open>\<^verbatim>\<open>range(n)\<close> and \<^verbatim>\<open>range(1, n + 1)\<close>.\<close>

definition range0 :: "int \<Rightarrow> int list" where
  "range0 n = [0..n - 1]"

definition range1 :: "int \<Rightarrow> int list" where
  "range1 n = [1..n]"

definition get_empty_seats_count :: "room \<Rightarrow> int result" where
  "get_empty_seats_count rm =
     (case for_each (range0 (rows rm)) (\<lambda>row.
             for_each (range0 (columns rm)) (\<lambda>col cnt.
               case is_seat_empty rm row col of
                 Inl e \<Rightarrow> (Inl e, cnt)
               | Inr b \<Rightarrow> (Inr (), if b then cnt + 1 else cnt))) 0 of
        (Inl e, _) \<Rightarrow> Inl e
      | (Inr _, cnt) \<Rightarrow> Inr cnt)"

text \<open>\<^verbatim>\<open>models/exam_session.py\<close>; the display metadata (name, date, year, semester)
  plays no part in allocation and is left out.\<close>

record exam_session =
  students :: "student list"
  rooms :: "room list"

definition get_total_capacity :: "exam_session \<Rightarrow> int" where
  "get_total_capacity s = sum_list (map capacity (rooms s))"

definition has_sufficient_capacity :: "exam_session \<Rightarrow> bool" where
  "has_sufficient_capacity s = (get_total_capacity s \<ge> int (length (students s)))"

text \<open>A Python \<^verbatim>\<open>dict\<close> keeps insertion order: an association list, where storing under
  a present key replaces its value in place and a new key goes to the end
  (\<^const>\<open>AList.update\<close>).\<close>

type_synonym ('k, 'v) dict = "('k \<times> 'v) list"

definition group_student :: "(string option, student list) dict \<Rightarrow> student \<Rightarrow> (string option, student list) dict" where
  "group_student branch_dict st =
     (let d = (if map_of branch_dict (branch_name st) = None
               then AList.update (branch_name st) [] branch_dict else branch_dict)
      in case map_of d (branch_name st) of
           Some g \<Rightarrow> AList.update (branch_name st) (g @ [st]) d
         | None \<Rightarrow> d)"

definition get_students_by_branch :: "exam_session \<Rightarrow> (string option, student list) dict" where
  "get_students_by_branch s = foldl group_student [] (students s)"


section \<open>The seating allocator\<close>

text \<open>\<^verbatim>\<open>models/seating_allocator.py\<close>. A queue entry is a student or the \<^verbatim>\<open>None\<close>
  placeholder added by the padding.\<close>

type_synonym queue = "seat list"

text \<open>The loop of \<^verbatim>\<open>_create_even_odd_lists\<close> over \<^verbatim>\<open>enumerate(branch_wise_list)\<close>;
  \<open>i\<close> is the running index.\<close>

fun distribute :: "nat \<Rightarrow> student list list \<Rightarrow> queue \<times> queue \<Rightarrow> queue \<times> queue" where
  "distribute i [] (even_list, odd_list) = (even_list, odd_list)"
| "distribute i (sts # rest) (even_list, odd_list) =
     distribute (i + 1) rest
       (if i = 0 then (map Some sts, odd_list)
        else if i = 1 then (even_list, map Some sts)
        else if length even_list > length odd_list
             then (even_list, odd_list @ map Some sts)
             else (even_list @ map Some sts, odd_list))"

definition create_even_odd_lists :: "(string option, student list) dict \<Rightarrow> queue \<times> queue" where
  "create_even_odd_lists branch_groups =
     (let branch_wise_list = map snd branch_groups;
          (even_list, odd_list) = distribute 0 branch_wise_list ([], []);
          max_length = max (length even_list) (length odd_list)
      in (even_list @ replicate (max_length - length even_list) None,
          odd_list @ replicate (max_length - length odd_list) None))"

text \<open>The guarded write shared by the three fill loops:
  \<^verbatim>\<open>if idx < len(q): student = q[idx]; if student is not None: room.set_seat(row, col, student)\<close>.\<close>

definition seat_from :: "queue \<Rightarrow> nat \<Rightarrow> room \<Rightarrow> int \<Rightarrow> int \<Rightarrow> unit result \<times> room" where
  "seat_from q idx rm row col =
     (if idx < length q then
        (case q ! idx of
           None \<Rightarrow> (Inr (), rm)
         | Some st \<Rightarrow> set_seat rm row col (Some st))
      else (Inr (), rm))"

text \<open>\<^verbatim>\<open>_allocate_alternating_seats\<close>; the two cursors \<^verbatim>\<open>self.odd_index\<close> and
  \<^verbatim>\<open>self.even_index\<close> come in and go out as the pair \<open>idx\<close>.\<close>

definition allocate_alternating_seats ::
  "room \<Rightarrow> queue \<Rightarrow> queue \<Rightarrow> nat \<times> nat \<Rightarrow> unit result \<times> room \<times> nat \<times> nat" where
  "allocate_alternating_seats rm even_list odd_list idx =
     (let cols = columns rm;
          rws = rows rm;
          odd_cols = (cols + 1) div 2;
          even_cols = cols - odd_cols
      in case for_each (range1 odd_cols) (\<lambda>odd_col.
                for_each (range1 rws) (\<lambda>odd_row (r, odd_index).
                  case seat_from odd_list odd_index r (odd_row - 1) ((odd_col * 2 - 1) - 1) of
                    (Inl e, r') \<Rightarrow> (Inl e, (r', odd_index))
                  | (Inr _, r') \<Rightarrow> (Inr (), (r', odd_index + 1)))) (rm, fst idx) of
           (Inl e, (rm1, odd_index)) \<Rightarrow> (Inl e, rm1, odd_index, snd idx)
         | (Inr _, (rm1, odd_index)) \<Rightarrow>
             (case for_each (range1 even_cols) (\<lambda>even_col.
                     for_each (range1 rws) (\<lambda>even_row (r, even_index).
                       case seat_from even_list even_index r (even_row - 1) ((even_col * 2) - 1) of
                         (Inl e, r') \<Rightarrow> (Inl e, (r', even_index))
                       | (Inr _, r') \<Rightarrow> (Inr (), (r', even_index + 1)))) (rm1, snd idx) of
                (res, (rm2, even_index)) \<Rightarrow> (res, rm2, odd_index, even_index)))"

text \<open>\<^verbatim>\<open>_allocate_sequential_seats\<close>: the cursor \<^verbatim>\<open>k\<close> is a local variable, set to 0 at
  every call.\<close>

definition allocate_sequential_seats :: "room \<Rightarrow> queue \<Rightarrow> unit result \<times> room" where
  "allocate_sequential_seats rm sts =
     (case for_each (range0 (columns rm)) (\<lambda>col.
             for_each (range0 (rows rm)) (\<lambda>row (r, k).
               case seat_from sts k r row col of
                 (Inl e, r') \<Rightarrow> (Inl e, (r', k))
               | (Inr _, r') \<Rightarrow> (Inr (), (r', k + 1)))) (rm, 0) of
        (res, (rm', k)) \<Rightarrow> (res, rm'))"

text \<open>The loop of \<^verbatim>\<open>allocate_seats\<close> over \<^verbatim>\<open>self.exam_session.rooms\<close>; \<open>n\<close> is
  \<^verbatim>\<open>len(branch_groups)\<close>. Each room object is mutated in place, so the result lists the
  rooms in their state after the loop (the rooms behind a raise untouched).\<close>

fun allocate_rooms ::
  "nat \<Rightarrow> queue \<Rightarrow> queue \<Rightarrow> room list \<Rightarrow> nat \<times> nat \<Rightarrow> unit result \<times> room list \<times> nat \<times> nat" where
  "allocate_rooms n even_list odd_list [] idx = (Inr (), [], idx)"
| "allocate_rooms n even_list odd_list (rm # rms) idx =
     (let rm0 = clear_all_seats rm in
      if even_list = [] \<and> odd_list = [] then
        (case allocate_rooms n even_list odd_list rms idx of
           (res, rms', idx') \<Rightarrow> (res, rm0 # rms', idx'))
      else
        (case (if n > 1 then allocate_alternating_seats rm0 even_list odd_list idx
               else (case allocate_sequential_seats rm0 (even_list @ odd_list) of
                       (res, rm1) \<Rightarrow> (res, rm1, idx))) of
           (Inl e, rm1, idx1) \<Rightarrow> (Inl e, rm1 # rms, idx1)
         | (Inr _, rm1, idx1) \<Rightarrow>
             (case allocate_rooms n even_list odd_list rms idx1 of
                (res, rms', idx') \<Rightarrow> (res, rm1 # rms', idx'))))"

text \<open>\<^verbatim>\<open>allocate_seats\<close>: the returned boolean (or the raise) and the session after the
  call. The cursors are reset to 0 before the room loop.\<close>

definition allocate_seats :: "exam_session \<Rightarrow> bool result \<times> exam_session" where
  "allocate_seats s =
     (if \<not> has_sufficient_capacity s then (Inr False, s)
      else
        let branch_groups = get_students_by_branch s;
            (even_list, odd_list) = create_even_odd_lists branch_groups
        in case allocate_rooms (length branch_groups) even_list odd_list (rooms s) (0, 0) of
             (Inl e, rms, idx) \<Rightarrow> (Inl e, s\<lparr>rooms := rms\<rparr>)
           | (Inr _, rms, idx) \<Rightarrow> (Inr True, s\<lparr>rooms := rms\<rparr>))"

section \<open>Statistics\<close>

text \<open>\<^verbatim>\<open>generate_statistics\<close>: the dictionaries it builds, as records of their keys.\<close>

record room_stats =
  stat_capacity :: int
  assigned_seats :: int
  branch_distribution :: "(string option, int) dict"

record statistics =
  total_students :: int
  total_rooms :: int
  total_capacity :: int
  rooms_stats :: "(string, room_stats) dict"
  branch_stats :: "(string option, int) dict"

text \<open>Python truth of a branch name: \<^verbatim>\<open>None\<close> and the empty string are false. A
  \<^verbatim>\<open>Student\<close> object itself is always true.\<close>

definition truthy :: "string option \<Rightarrow> bool" where
  "truthy b = (case b of None \<Rightarrow> False | Some str \<Rightarrow> str \<noteq> [])"

text \<open>The body of the grid scan:
  \<^verbatim>\<open>if student and student.branch_name: if b not in dist: dist[b] = 0; dist[b] += 1\<close>.\<close>

definition count_branch :: "(string option, int) dict \<Rightarrow> seat \<Rightarrow> (string option, int) dict" where
  "count_branch dist seat =
     (case seat of
        None \<Rightarrow> dist
      | Some st \<Rightarrow>
          if truthy (branch_name st) then
            (let d = (if map_of dist (branch_name st) = None
                      then AList.update (branch_name st) 0 dist else dist)
             in case map_of d (branch_name st) of
                  Some n \<Rightarrow> AList.update (branch_name st) (n + 1) d
                | None \<Rightarrow> d)
          else dist)"

text \<open>The body of the loop over the rooms: the statistics of one room.\<close>

definition room_statistics :: "room \<Rightarrow> room_stats result" where
  "room_statistics rm =
     (case get_empty_seats_count rm of
        Inl e \<Rightarrow> Inl e
      | Inr empty_seats \<Rightarrow>
          (case for_each (range0 (rows rm)) (\<lambda>row.
                  for_each (range0 (columns rm)) (\<lambda>col dist.
                    case get_seat rm row col of
                      Inl e \<Rightarrow> (Inl e, dist)
                    | Inr seat \<Rightarrow> (Inr (), count_branch dist seat))) [] of
             (Inl e, _) \<Rightarrow> Inl e
           | (Inr _, dist) \<Rightarrow>
               Inr \<lparr>stat_capacity = capacity rm,
                    assigned_seats = capacity rm - empty_seats,
                    branch_distribution = dist\<rparr>))"

definition generate_statistics :: "exam_session \<Rightarrow> statistics result" where
  "generate_statistics s =
     (let bstats = foldl (\<lambda>d (branch, sts). AList.update branch (int (length sts)) d) []
                     (get_students_by_branch s)
      in case for_each (rooms s) (\<lambda>rm rstats.
                case room_statistics rm of
                  Inl e \<Rightarrow> (Inl e, rstats)
                | Inr rs \<Rightarrow> (Inr (), AList.update (room_no rm) rs rstats)) [] of
           (Inl e, _) \<Rightarrow> Inl e
         | (Inr _, rstats) \<Rightarrow>
             Inr \<lparr>total_students = int (length (students s)),
                  total_rooms = int (length (rooms s)),
                  total_capacity = get_total_capacity s,
                  rooms_stats = rstats,
                  branch_stats = bstats\<rparr>)"

section \<open>Specification-level notions\<close>

text \<open>The class invariant of \<^verbatim>\<open>Room\<close>: the grid has \<^verbatim>\<open>rows\<close> rows of \<^verbatim>\<open>columns\<close> seats.
  The constructor and \<^verbatim>\<open>clear_all_seats\<close> establish it, \<^verbatim>\<open>set_seat\<close> keeps it, and the
  room controller rebuilds the grid whenever it changes the dimensions.\<close>

definition grid_ok :: "room \<Rightarrow> bool" where
  "grid_ok rm \<longleftrightarrow>
     length (seating_grid rm) = nat (rows rm) \<and>
     list_all (\<lambda>r. length r = nat (columns rm)) (seating_grid rm)"

text \<open>The queue construction as the specification words it: the first group is queue A,
  the second queue B, every later group goes to B exactly when A is longer at that moment,
  and the shorter queue is padded at the end.\<close>

fun place_groups :: "student list list \<Rightarrow> queue \<times> queue \<Rightarrow> queue \<times> queue" where
  "place_groups [] (a, b) = (a, b)"
| "place_groups (g # gs) (a, b) =
     place_groups gs (if length a > length b then (a, b @ map Some g)
                      else (a @ map Some g, b))"

definition pad_queues :: "queue \<times> queue \<Rightarrow> queue \<times> queue" where
  "pad_queues q = (fst q @ replicate (length (snd q) - length (fst q)) None,
                   snd q @ replicate (length (fst q) - length (snd q)) None)"

fun two_queues :: "student list list \<Rightarrow> queue \<times> queue" where
  "two_queues [] = pad_queues ([], [])"
| "two_queues [g] = pad_queues (map Some g, [])"
| "two_queues (g1 # g2 # gs) = pad_queues (place_groups gs (map Some g1, map Some g2))"

text \<open>Concrete students and rooms for the scenarios of the specification and of the
  test suite.\<close>

definition ece1 :: student where "ece1 = Student ''21321A0401'' None None None None"
definition ece2 :: student where "ece2 = Student ''21321A0402'' None None None None"
definition ece3 :: student where "ece3 = Student ''21321A0403'' None None None None"
definition cse1 :: student where "cse1 = Student ''21321A0501'' None None None None"
definition cse2 :: student where "cse2 = Student ''21321A0502'' None None None None"
definition cse3 :: student where "cse3 = Student ''21321A0503'' None None None None"

definition occupied_room :: room where
  "occupied_room = \<lparr>room_no = ''101'', rows = 1, columns = 2,
                    seating_grid = [[Some cse1, Some cse2]]\<rparr>"

text \<open>Reading a queue at a cursor: the entry, or nothing once the cursor is past the end.\<close>

definition qget :: "queue \<Rightarrow> nat \<Rightarrow> seat" where
  "qget q i = (if i < length q then q ! i else None)"

text \<open>What a seat holds after the guarded write of a queue entry: a placeholder leaves
  the seat as it was.\<close>

definition placed :: "seat \<Rightarrow> seat \<Rightarrow> seat" where
  "placed entry old = (case entry of None \<Rightarrow> old | Some st \<Rightarrow> Some st)"

text \<open>A position is a pair (row, column), 0-based.\<close>

definition in_bounds :: "room \<Rightarrow> int \<times> int \<Rightarrow> bool" where
  "in_bounds rm p \<longleftrightarrow> 0 \<le> fst p \<and> fst p < rows rm \<and> 0 \<le> snd p \<and> snd p < columns rm"

definition cell :: "room \<Rightarrow> int \<times> int \<Rightarrow> seat" where
  "cell rm p = seating_grid rm ! nat (fst p) ! nat (snd p)"

text \<open>One iteration of a fill loop at position \<open>p\<close>: the guarded write, then the cursor
  moves on.\<close>

definition seat_step :: "queue \<Rightarrow> int \<times> int \<Rightarrow> room \<times> nat \<Rightarrow> unit result \<times> room \<times> nat" where
  "seat_step q p s =
     (case seat_from q (snd s) (fst s) (fst p) (snd p) of
        (Inl e, r') \<Rightarrow> (Inl e, (r', snd s))
      | (Inr _, r') \<Rightarrow> (Inr (), (r', snd s + 1)))"

text \<open>The positions a band visits, in visiting order: \<open>K\<close> columns, the \<open>k\<close>-th being
  column \<open>colf k\<close>, each walked over \<open>R\<close> rows top to bottom.\<close>

definition band_positions :: "(nat \<Rightarrow> int) \<Rightarrow> nat \<Rightarrow> nat \<Rightarrow> (int \<times> int) list" where
  "band_positions colf K R = map (\<lambda>(k, j). (int j, colf k)) (List.product [0..<K] [0..<R])"

text \<open>The students in a list of seats or queue entries, and the occupants of a room.\<close>

fun seat_students :: "seat \<Rightarrow> student list" where
  "seat_students None = []"
| "seat_students (Some st) = [st]"

definition queue_students :: "seat list \<Rightarrow> student list" where
  "queue_students q = concat (map seat_students q)"

definition occupants :: "room \<Rightarrow> student list" where
  "occupants rm = queue_students (concat (seating_grid rm))"

text \<open>Cursor steps a room takes from each queue in the banded walk.\<close>

definition odd_steps :: "room \<Rightarrow> nat" where
  "odd_steps rm = nat ((columns rm + 1) div 2) * nat (rows rm)"

definition even_steps :: "room \<Rightarrow> nat" where
  "even_steps rm = nat (columns rm - (columns rm + 1) div 2) * nat (rows rm)"

text \<open>The seat the banded walk leaves at (row, col) of a room entered with the cursors
  \<open>(oi, ei)\<close>: columns at 0-based even index (1-based positions 1, 3, 5, ...) read
  \<^verbatim>\<open>odd_list\<close>, the others read \<^verbatim>\<open>even_list\<close>, column-major within the band.\<close>

definition banded_seat :: "queue \<Rightarrow> queue \<Rightarrow> nat \<times> nat \<Rightarrow> room \<Rightarrow> int \<Rightarrow> int \<Rightarrow> seat" where
  "banded_seat even_list odd_list idx rm row col =
     (if even col
      then qget odd_list (fst idx + nat (col div 2) * nat (rows rm) + nat row)
      else qget even_list (snd idx + nat (col div 2) * nat (rows rm) + nat row))"

text \<open>The seat the sequential walk leaves at (row, col): column-major from the start of
  the queue.\<close>

definition sequential_seat :: "queue \<Rightarrow> room \<Rightarrow> int \<Rightarrow> int \<Rightarrow> seat" where
  "sequential_seat q rm row col = qget q (nat col * nat (rows rm) + nat row)"

text \<open>Sessions used as concrete inputs.\<close>

definition small_room_session :: exam_session where
  "small_room_session = \<lparr>students = [ece1, cse1], rooms = [Room ''101'' 1 1]\<rparr>"

definition narrow_room_session :: exam_session where
  "narrow_room_session = \<lparr>students = [ece1, cse1], rooms = [Room ''101'' 2 1]\<rparr>"

definition wide_room_session :: exam_session where
  "wide_room_session = \<lparr>students = [ece1, cse1], rooms = [Room ''101'' 1 2]\<rparr>"

definition two_branch_session :: exam_session where
  "two_branch_session =
     \<lparr>students = [ece1, ece2, ece3, cse1, cse2, cse3], rooms = [Room ''101'' 3 3]\<rparr>"

definition single_branch_two_rooms :: exam_session where
  "single_branch_two_rooms =
     \<lparr>students = [cse1, cse2, cse3], rooms = [Room ''101'' 1 2, Room ''102'' 1 1]\<rparr>"


text \<open>Adjacency of seats, as the test suite checks it: two positions share an edge when
  they are neighbours in a column or in a row.\<close>

definition positions :: "room \<Rightarrow> (int \<times> int) list" where
  "positions rm = List.product (range0 (rows rm)) (range0 (columns rm))"

definition below :: "int \<times> int \<Rightarrow> int \<times> int \<Rightarrow> bool" where
  "below p p' \<longleftrightarrow> snd p' = snd p \<and> fst p' = fst p + 1"

definition beside :: "int \<times> int \<Rightarrow> int \<times> int \<Rightarrow> bool" where
  "beside p p' \<longleftrightarrow> fst p' = fst p \<and> snd p' = snd p + 1"

definition both_of_branch :: "room \<Rightarrow> string \<Rightarrow> int \<times> int \<Rightarrow> int \<times> int \<Rightarrow> bool" where
  "both_of_branch rm b p p' \<longleftrightarrow>
     (case (cell rm p, cell rm p') of
        (Some st, Some st') \<Rightarrow> branch_name st = Some b \<and> branch_name st' = Some b
      | _ \<Rightarrow> False)"

definition branch_shares_edge :: "room \<Rightarrow> string \<Rightarrow> bool" where
  "branch_shares_edge rm b \<longleftrightarrow>
     list_ex (\<lambda>p. list_ex (\<lambda>p'. (below p p' \<or> beside p p') \<and> both_of_branch rm b p p')
                (positions rm)) (positions rm)"

definition branch_side_by_side :: "room \<Rightarrow> string \<Rightarrow> bool" where
  "branch_side_by_side rm b \<longleftrightarrow>
     list_ex (\<lambda>p. list_ex (\<lambda>p'. beside p p' \<and> both_of_branch rm b p p')
                (positions rm)) (positions rm)"

text \<open>The distinct elements of a list in the order of their first occurrence.\<close>

definition first_seen :: "'a list \<Rightarrow> 'a list" where
  "first_seen xs = rev (remdups (rev xs))"

text \<open>The cursors \<^verbatim>\<open>(odd_index, even_index)\<close> with which the banded walk enters the
  \<open>j\<close>-th room of a session: the steps taken in the rooms before it.\<close>

definition band_cursors :: "room list \<Rightarrow> nat \<Rightarrow> nat \<times> nat" where
  "band_cursors rms j =
     (sum_list (map odd_steps (take j rms)), sum_list (map even_steps (take j rms)))"

text \<open>The three totals the statistics are compared on: the per-branch occupancy counts
  summed over all rooms, the per-room occupied-seat counts summed over all rooms, and the
  number of students seated in the grids.\<close>

definition branch_occupancy_total :: "statistics \<Rightarrow> int" where
  "branch_occupancy_total st =
     sum_list (map (\<lambda>(no, rs). sum_list (map snd (branch_distribution rs))) (rooms_stats st))"

definition assigned_seats_total :: "statistics \<Rightarrow> int" where
  "assigned_seats_total st = sum_list (map (\<lambda>(no, rs). assigned_seats rs) (rooms_stats st))"

definition seated_total :: "exam_session \<Rightarrow> int" where
  "seated_total s = int (length (concat (map occupants (rooms s))))"

definition unknown_student :: student where
  "unknown_student = Student ''21321A9901'' None None None None"

definition unknown_branch_session :: exam_session where
  "unknown_branch_session = \<lparr>students = [unknown_student], rooms = [Room ''101'' 1 1]\<rparr>"

text \<open>One iteration of a read-only grid scan at position \<open>p\<close>: \<^verbatim>\<open>get_seat\<close>, then the
  accumulator takes the seat in.\<close>

definition scan_step :: "(seat \<Rightarrow> 'a \<Rightarrow> 'a) \<Rightarrow> room \<Rightarrow> int \<times> int \<Rightarrow> 'a \<Rightarrow> unit result \<times> 'a" where
  "scan_step step rm p acc =
     (case get_seat rm (fst p) (snd p) of
        Inl e \<Rightarrow> (Inl e, acc)
      | Inr seat \<Rightarrow> (Inr (), step seat acc))"

text \<open>The positions of a grid of \<open>R\<close> rows and \<open>C\<close> columns, row by row.\<close>

definition row_major :: "nat \<Rightarrow> nat \<Rightarrow> (int \<times> int) list" where
  "row_major R C = map (\<lambda>(x, y). (int x, int y)) (List.product [0..<R] [0..<C])"

text \<open>A full room: twelve ECE and twelve CSE students for one room of 25 seats.\<close>

definition hall_ticket :: "string \<Rightarrow> nat \<Rightarrow> string" where
  "hall_ticket code i = ''21321A'' @ code @ [char_of (48 + i div 10), char_of (48 + i mod 10)]"

definition full_room_session :: exam_session where
  "full_room_session =
     \<lparr>students = map (\<lambda>i. Student (hall_ticket ''04'' i) None None None None) [1..<13] @
                 map (\<lambda>i. Student (hall_ticket ''05'' i) None None None None) [1..<13],
      rooms = [Room ''101'' 5 5]\<rparr>"

section \<open>Branch derivation\<close>

lemma BRANCH_CODES_keys_distinct: "distinct (map fst BRANCH_CODES)"
  by (simp add: BRANCH_CODES_def)

lemma two_chars_at_6:
  assumes "length h = 10"
  shows "take 2 (drop 6 h) = [h ! 6, h ! 7]"
proof -
  have "length (drop 6 h) = 4" using assms by simp
  then obtain a b rest where d: "drop 6 h = a # b # rest"
    by (cases "drop 6 h"; cases "tl (drop 6 h)") auto
  have "a = drop 6 h ! 0" "b = drop 6 h ! 1" using d by simp_all
  then have "a = h ! 6" "b = h ! 7" using assms by simp_all
  then show ?thesis using d by simp
qed

text \<open>
  C7. Branch derivation is a total function of the identifier (it has no error value, so
  it never raises). For an identifier of length 10 it returns the table's label of the
  two characters at positions 6 and 7 when the table has that code, and the empty string
  when it has not; for every other length it returns the empty string.
\<close>

theorem get_branch_from_hallticket_table:
  "(length h = 10 \<longrightarrow>
      (\<forall>label. ([h ! 6, h ! 7], label) \<in> set BRANCH_CODES \<longrightarrow>
                get_branch_from_hallticket h = label) \<and>
      ([h ! 6, h ! 7] \<notin> fst ` set BRANCH_CODES \<longrightarrow> get_branch_from_hallticket h = '''')) \<and>
   (length h \<noteq> 10 \<longrightarrow> get_branch_from_hallticket h = '''')"
proof (cases "length h = 10")
  case False
  then show ?thesis by (simp add: get_branch_from_hallticket_def)
next
  case True
  have code: "take 2 (drop 6 h) = [h ! 6, h ! 7]" by (rule two_chars_at_6 [OF True])
  have hit: "get_branch_from_hallticket h = label"
    if "([h ! 6, h ! 7], label) \<in> set BRANCH_CODES" for label
  proof -
    have "map_of BRANCH_CODES [h ! 6, h ! 7] = Some label"
      using that BRANCH_CODES_keys_distinct by (rule_tac map_of_is_SomeI)
    then show ?thesis using True code by (simp add: get_branch_from_hallticket_def)
  qed
  have miss: "get_branch_from_hallticket h = ''''"
    if "[h ! 6, h ! 7] \<notin> fst ` set BRANCH_CODES"
  proof -
    have "map_of BRANCH_CODES [h ! 6, h ! 7] = None"
      using that by (simp add: map_of_eq_None_iff)
    then show ?thesis using True code by (simp add: get_branch_from_hallticket_def)
  qed
  show ?thesis using True hit miss by blast
qed

theorem get_branch_from_hallticket_table_witness:
  "get_branch_from_hallticket ''21321A0401'' = ''ECE'' \<and>
   get_branch_from_hallticket ''21321A9901'' = '''' \<and>
   get_branch_from_hallticket ''21321A04'' = ''''"
proof -
  have a: "([''21321A0401'' ! 6, ''21321A0401'' ! 7], ''ECE'') \<in> set BRANCH_CODES"
    by (simp add: BRANCH_CODES_def)
  have b: "[''21321A9901'' ! 6, ''21321A9901'' ! 7] \<notin> fst ` set BRANCH_CODES"
    by (simp add: BRANCH_CODES_def)
  have c: "length ''21321A04'' \<noteq> 10" by simp
  show ?thesis
    using get_branch_from_hallticket_table [of "''21321A0401''"]
      get_branch_from_hallticket_table [of "''21321A9901''"]
      get_branch_from_hallticket_table [of "''21321A04''"] a b c
    by simp
qed

section \<open>Rooms\<close>

lemma grid_ok_Room: "grid_ok (Room no r c)"
  by (simp add: grid_ok_def Room_def empty_grid_def list_all_iff)

lemma grid_ok_clear: "grid_ok (clear_all_seats rm)"
  by (simp add: grid_ok_def clear_all_seats_def empty_grid_def list_all_iff)

lemma grid_ok_row_length:
  "grid_ok rm \<Longrightarrow> i < nat (rows rm) \<Longrightarrow> length (seating_grid rm ! i) = nat (columns rm)"
  by (simp add: grid_ok_def list_all_length)

lemma set_seat_in_bounds:
  assumes ok: "grid_ok rm"
    and b: "0 \<le> row" "row < rows rm" "0 \<le> col" "col < columns rm"
  shows "set_seat rm row col st =
           (Inr (), rm\<lparr>seating_grid :=
              (seating_grid rm)[nat row := (seating_grid rm ! nat row)[nat col := st]]\<rparr>)"
proof -
  have r: "nat row < length (seating_grid rm)" using ok b by (simp add: grid_ok_def)
  have "length (seating_grid rm ! nat row) = nat (columns rm)"
    using ok b by (intro grid_ok_row_length) simp_all
  then have c: "nat col < length (seating_grid rm ! nat row)" using b by simp
  show ?thesis using b r c by (simp add: set_seat_def Let_def)
qed

lemma set_seat_out_of_bounds:
  "row < 0 \<or> row \<ge> rows rm \<or> col < 0 \<or> col \<ge> columns rm \<Longrightarrow>
   set_seat rm row col st = (Inl IndexError, rm)"
  by (simp add: set_seat_def)

lemma grid_ok_update:
  assumes "grid_ok rm"
  shows "grid_ok (rm\<lparr>seating_grid := (seating_grid rm)[i := (seating_grid rm ! i)[j := st]]\<rparr>)"
proof -
  let ?g = "seating_grid rm"
  have "\<forall>k < length ?g. length (?g[i := (?g ! i)[j := st]] ! k) = nat (columns rm)"
  proof (cases "i < length ?g")
    case True
    then show ?thesis
      using assms by (auto simp: grid_ok_def list_all_length nth_list_update)
  next
    case False
    then show ?thesis
      using assms by (simp add: grid_ok_def list_all_length)
  qed
  then show ?thesis using assms by (simp add: grid_ok_def list_all_length)
qed

lemma get_seat_in_bounds:
  assumes ok: "grid_ok rm"
    and b: "0 \<le> row" "row < rows rm" "0 \<le> col" "col < columns rm"
  shows "get_seat rm row col = Inr (seating_grid rm ! nat row ! nat col)"
proof -
  have r: "nat row < length (seating_grid rm)" using ok b by (simp add: grid_ok_def)
  have "length (seating_grid rm ! nat row) = nat (columns rm)"
    using ok b by (intro grid_ok_row_length) simp_all
  then have c: "nat col < length (seating_grid rm ! nat row)" using b by simp
  show ?thesis using b r c by (simp add: get_seat_def Let_def)
qed

lemma get_seat_out_of_bounds:
  "row < 0 \<or> row \<ge> rows rm \<or> col < 0 \<or> col \<ge> columns rm \<Longrightarrow>
   get_seat rm row col = Inl IndexError"
  by (simp add: get_seat_def)

text \<open>
  C10. On a room that satisfies the class invariant, \<^verbatim>\<open>set_seat\<close> at an in-bounds
  position returns normally whatever the seat held before, the seat then holds the new
  occupant, every other seat reads as before, and the room's number, row count and column
  count are unchanged. At an out-of-bounds position, on any room, it raises
  \<^verbatim>\<open>IndexError\<close> and the room, its grid included, is exactly as before.
\<close>

theorem set_seat_frame:
  "(grid_ok rm \<and> 0 \<le> row \<and> row < rows rm \<and> 0 \<le> col \<and> col < columns rm \<longrightarrow>
      (\<exists>rm'. set_seat rm row col st = (Inr (), rm') \<and>
             rows rm' = rows rm \<and> columns rm' = columns rm \<and>
             room_no rm' = room_no rm \<and> grid_ok rm' \<and>
             get_seat rm' row col = Inr st \<and>
             (\<forall>r c. (r, c) \<noteq> (row, col) \<longrightarrow> get_seat rm' r c = get_seat rm r c))) \<and>
   (\<not> (0 \<le> row \<and> row < rows rm \<and> 0 \<le> col \<and> col < columns rm) \<longrightarrow>
      set_seat rm row col st = (Inl IndexError, rm))"
proof (intro conjI impI)
  assume "\<not> (0 \<le> row \<and> row < rows rm \<and> 0 \<le> col \<and> col < columns rm)"
  then show "set_seat rm row col st = (Inl IndexError, rm)"
    by (intro set_seat_out_of_bounds) auto
next
  assume a: "grid_ok rm \<and> 0 \<le> row \<and> row < rows rm \<and> 0 \<le> col \<and> col < columns rm"
  then have ok: "grid_ok rm"
    and b: "0 \<le> row \<and> row < rows rm \<and> 0 \<le> col \<and> col < columns rm" by simp_all
  let ?g = "seating_grid rm"
  let ?rm' = "rm\<lparr>seating_grid := ?g[nat row := (?g ! nat row)[nat col := st]]\<rparr>"
  have s: "set_seat rm row col st = (Inr (), ?rm')"
    using ok b by (intro set_seat_in_bounds) simp_all
  have ok': "grid_ok ?rm'" by (rule grid_ok_update [OF ok])
  have r: "nat row < length ?g" using ok b by (simp add: grid_ok_def)
  have c: "nat col < length (?g ! nat row)"
    using grid_ok_row_length [OF ok, of "nat row"] b by simp
  have here: "get_seat ?rm' row col = Inr st"
    using get_seat_in_bounds [OF ok', of row col] b r c by simp
  have other: "get_seat ?rm' r' c' = get_seat rm r' c'" if ne: "(r', c') \<noteq> (row, col)" for r' c'
  proof (cases "0 \<le> r' \<and> r' < rows rm \<and> 0 \<le> c' \<and> c' < columns rm")
    case False
    then have "get_seat ?rm' r' c' = Inl IndexError" "get_seat rm r' c' = Inl IndexError"
      by (auto intro!: get_seat_out_of_bounds)
    then show ?thesis by simp
  next
    case True
    have g1: "get_seat ?rm' r' c' = Inr (seating_grid ?rm' ! nat r' ! nat c')"
      using get_seat_in_bounds [OF ok', of r' c'] True by simp
    have g2: "get_seat rm r' c' = Inr (?g ! nat r' ! nat c')"
      using get_seat_in_bounds [OF ok, of r' c'] True by simp
    have "nat r' \<noteq> nat row \<or> nat c' \<noteq> nat col" using ne True b by auto
    then have "seating_grid ?rm' ! nat r' ! nat c' = ?g ! nat r' ! nat c'"
      using r by (auto simp: nth_list_update)
    then show ?thesis using g1 g2 by simp
  qed
  show "\<exists>rm'. set_seat rm row col st = (Inr (), rm') \<and>
          rows rm' = rows rm \<and> columns rm' = columns rm \<and>
          room_no rm' = room_no rm \<and> grid_ok rm' \<and>
          get_seat rm' row col = Inr st \<and>
          (\<forall>r c. (r, c) \<noteq> (row, col) \<longrightarrow> get_seat rm' r c = get_seat rm r c)"
    using s ok' here other by (intro exI [of _ ?rm']) simp
qed

theorem set_seat_frame_witness:
  "grid_ok occupied_room \<and>
   set_seat occupied_room 0 1 (Some ece1) =
     (Inr (), occupied_room\<lparr>seating_grid := [[Some cse1, Some ece1]]\<rparr>) \<and>
   get_seat (snd (set_seat occupied_room 0 1 (Some ece1))) 0 0 = get_seat occupied_room 0 0 \<and>
   set_seat occupied_room 1 0 (Some ece1) = (Inl IndexError, occupied_room)"
proof -
  have ok: "grid_ok occupied_room" by (simp add: grid_ok_def occupied_room_def)
  have inb: "(0::int) \<le> 0 \<and> 0 < rows occupied_room \<and> (0::int) \<le> 1 \<and> 1 < columns occupied_room"
    by (simp add: occupied_room_def)
  have oob: "\<not> ((0::int) \<le> 1 \<and> 1 < rows occupied_room \<and> (0::int) \<le> 0 \<and> 0 < columns occupied_room)"
    by (simp add: occupied_room_def)
  have w: "set_seat occupied_room 0 1 (Some ece1) =
             (Inr (), occupied_room\<lparr>seating_grid := [[Some cse1, Some ece1]]\<rparr>)"
    by (simp add: set_seat_def occupied_room_def)
  show ?thesis
    using set_seat_frame [where rm = occupied_room and row = 0 and col = 1 and st = "Some ece1"]
      set_seat_frame [where rm = occupied_room and row = 1 and col = 0 and st = "Some ece1"]
      ok inb oob w
    by auto
qed

section \<open>Queue construction\<close>

lemma distribute_later:
  "2 \<le> i \<Longrightarrow> distribute i gs (a, b) = place_groups gs (a, b)"
  by (induction gs arbitrary: i a b) auto

lemma create_even_odd_lists_distribute:
  "create_even_odd_lists groups = pad_queues (distribute 0 (map snd groups) ([], []))"
  by (simp add: create_even_odd_lists_def Let_def pad_queues_def max_def split: prod.split)

lemma distribute_two_queues: "pad_queues (distribute 0 gs ([], [])) = two_queues gs"
proof (cases gs)
  case Nil
  then show ?thesis by simp
next
  case (Cons g1 rest)
  show ?thesis
  proof (cases rest)
    case Nil
    then show ?thesis using Cons by simp
  next
    case (Cons g2 gs')
    then show ?thesis using \<open>gs = g1 # rest\<close> by (simp add: distribute_later)
  qed
qed

lemma pad_queues_length: "length (fst (pad_queues q)) = length (snd (pad_queues q))"
  by (simp add: pad_queues_def)

text \<open>
  C5. The queue construction of the code is the one the specification describes: the
  first group is queue A (the code's \<^verbatim>\<open>even_list\<close>), the second is queue B (its
  \<^verbatim>\<open>odd_list\<close>), each later group is appended whole to B exactly when A is longer than B
  at that moment and to A otherwise, and the result is padded with placeholders; the two
  queues returned have the same length.
\<close>

theorem create_even_odd_lists_two_queues:
  "create_even_odd_lists groups = two_queues (map snd groups) \<and>
   length (fst (create_even_odd_lists groups)) = length (snd (create_even_odd_lists groups))"
  by (simp add: create_even_odd_lists_distribute distribute_two_queues [symmetric]
      pad_queues_length)

theorem create_even_odd_lists_two_queues_witness:
  "create_even_odd_lists [(Some ''ECE'', [ece1, ece2]), (Some ''CSE'', [cse1]),
                          (Some ''IT'', [cse2]), (Some ''CIV'', [cse3])] =
     ([Some ece1, Some ece2, Some cse3], [Some cse1, Some cse2, None])"
  using create_even_odd_lists_two_queues
    [of "[(Some ''ECE'', [ece1, ece2]), (Some ''CSE'', [cse1]),
          (Some ''IT'', [cse2]), (Some ''CIV'', [cse3])]"]
  by (simp add: pad_queues_def)

section \<open>Loops\<close>

lemma for_each_append:
  "for_each (xs @ ys) body s =
     (case for_each xs body s of
        (Inl e, s') \<Rightarrow> (Inl e, s')
      | (Inr u, s') \<Rightarrow> for_each ys body s')"
  by (induction xs arbitrary: s) (auto split: prod.splits sum.splits)

lemma for_each_map: "for_each (map f xs) body s = for_each xs (\<lambda>x. body (f x)) s"
  by (induction xs arbitrary: s) (auto split: prod.splits sum.splits)

lemma for_each_nested:
  "for_each (map f xs) (\<lambda>c. for_each (map g ys) (\<lambda>r. F (h r c))) s =
   for_each (map (\<lambda>(x, y). h (g y) (f x)) (List.product xs ys)) F s"
proof (induction xs arbitrary: s)
  case Nil
  then show ?case by simp
next
  case (Cons x xs)
  have inner: "for_each (map g ys) (\<lambda>r. F (h r (f x))) t =
               for_each (map (\<lambda>y. h (g y) (f x)) ys) F t" for t
    by (simp add: for_each_map)
  show ?case
    by (simp add: for_each_append inner Cons.IH o_def split: prod.splits sum.splits)
qed

lemma range1_nat: "range1 n = map (\<lambda>k. int k + 1) [0..<nat n]"
  by (rule nth_equalityI) (simp_all add: range1_def)

lemma range0_nat: "range0 n = map int [0..<nat n]"
  by (rule nth_equalityI) (simp_all add: range0_def)

section \<open>One guarded write\<close>

lemma seat_from_qget:
  "seat_from q idx rm row col =
     (case qget q idx of None \<Rightarrow> (Inr (), rm) | Some st \<Rightarrow> set_seat rm row col (Some st))"
  by (simp add: seat_from_def qget_def)

lemma cell_update:
  assumes ok: "grid_ok rm" and p: "in_bounds rm p" and p': "in_bounds rm p'"
  shows "cell (rm\<lparr>seating_grid :=
            (seating_grid rm)[nat (fst p) := (seating_grid rm ! nat (fst p))[nat (snd p) := v]]\<rparr>) p' =
         (if p' = p then v else cell rm p')"
proof -
  let ?g = "seating_grid rm"
  have r: "nat (fst p) < length ?g" using ok p by (simp add: grid_ok_def in_bounds_def)
  have c: "nat (snd p) < length (?g ! nat (fst p))"
    using grid_ok_row_length [OF ok, of "nat (fst p)"] p by (simp add: in_bounds_def)
  have eq: "p' = p \<longleftrightarrow> nat (fst p') = nat (fst p) \<and> nat (snd p') = nat (snd p)"
    using p p' by (auto simp: in_bounds_def prod_eq_iff)
  show ?thesis
    using r c by (auto simp: cell_def eq nth_list_update)
qed

lemma seat_step_ok:
  assumes ok: "grid_ok rm" and p: "in_bounds rm p"
  shows "\<exists>rm'. seat_step q p (rm, idx) = (Inr (), (rm', idx + 1)) \<and>
           grid_ok rm' \<and> rows rm' = rows rm \<and> columns rm' = columns rm \<and>
           room_no rm' = room_no rm \<and>
           cell rm' p = placed (qget q idx) (cell rm p) \<and>
           (\<forall>p'. in_bounds rm p' \<longrightarrow> p' \<noteq> p \<longrightarrow> cell rm' p' = cell rm p')"
proof (cases "qget q idx")
  case None
  then have "seat_step q p (rm, idx) = (Inr (), (rm, idx + 1))"
    by (simp add: seat_step_def seat_from_qget)
  then show ?thesis using ok None by (simp add: placed_def)
next
  case (Some st)
  let ?g = "seating_grid rm"
  let ?rm' = "rm\<lparr>seating_grid := ?g[nat (fst p) := (?g ! nat (fst p))[nat (snd p) := Some st]]\<rparr>"
  have "set_seat rm (fst p) (snd p) (Some st) = (Inr (), ?rm')"
    using ok p by (intro set_seat_in_bounds) (simp_all add: in_bounds_def)
  then have s: "seat_step q p (rm, idx) = (Inr (), (?rm', idx + 1))"
    using Some by (simp add: seat_step_def seat_from_qget)
  have ok': "grid_ok ?rm'" by (rule grid_ok_update [OF ok])
  have cells: "cell ?rm' p' = (if p' = p then Some st else cell rm p')" if "in_bounds rm p'" for p'
    by (rule cell_update [OF ok p that])
  show ?thesis
    using s ok' Some cells p by (intro exI [of _ ?rm']) (simp add: placed_def)
qed

section \<open>Walking a list of positions\<close>

lemma walk_cells:
  assumes "grid_ok rm" and "\<forall>p \<in> set ps. in_bounds rm p" and "distinct ps"
  shows "\<exists>rm'. for_each ps (seat_step q) (rm, idx) = (Inr (), (rm', idx + length ps)) \<and>
           grid_ok rm' \<and> rows rm' = rows rm \<and> columns rm' = columns rm \<and>
           room_no rm' = room_no rm \<and>
           (\<forall>i < length ps. cell rm' (ps ! i) =
               placed (qget q (idx + i)) (cell rm (ps ! i))) \<and>
           (\<forall>p'. in_bounds rm p' \<longrightarrow> p' \<notin> set ps \<longrightarrow> cell rm' p' = cell rm p')"
  using assms
proof (induction ps arbitrary: rm idx)
  case Nil
  then show ?case by simp
next
  case (Cons p ps)
  from Cons.prems have p: "in_bounds rm p" and rest: "\<forall>p' \<in> set ps. in_bounds rm p'"
    and notin: "p \<notin> set ps" and dist: "distinct ps" by simp_all
  from seat_step_ok [OF Cons.prems(1) p, of q idx]
  obtain rm1 where s1: "seat_step q p (rm, idx) = (Inr (), (rm1, idx + 1))"
    and ok1: "grid_ok rm1" and d1: "rows rm1 = rows rm" "columns rm1 = columns rm"
    and n1: "room_no rm1 = room_no rm"
    and c1: "cell rm1 p = placed (qget q idx) (cell rm p)"
    and f1: "\<forall>p'. in_bounds rm p' \<longrightarrow> p' \<noteq> p \<longrightarrow> cell rm1 p' = cell rm p'"
    by blast
  have b1: "in_bounds rm1 p' = in_bounds rm p'" for p'
    by (simp add: in_bounds_def d1)
  from rest have rest1: "\<forall>p' \<in> set ps. in_bounds rm1 p'" by (simp add: b1)
  from Cons.IH [OF ok1 rest1 dist, of "idx + 1"]
  obtain rm' where s2: "for_each ps (seat_step q) (rm1, idx + 1) = (Inr (), (rm', idx + 1 + length ps))"
    and ok2: "grid_ok rm'" and d2: "rows rm' = rows rm1" "columns rm' = columns rm1"
    and n2: "room_no rm' = room_no rm1"
    and c2: "\<forall>i < length ps. cell rm' (ps ! i) =
               placed (qget q (idx + 1 + i)) (cell rm1 (ps ! i))"
    and f2: "\<forall>p'. in_bounds rm1 p' \<longrightarrow> p' \<notin> set ps \<longrightarrow> cell rm' p' = cell rm1 p'"
    by blast
  have run: "for_each (p # ps) (seat_step q) (rm, idx) = (Inr (), (rm', idx + length (p # ps)))"
    using s1 s2 by simp
  have cells: "cell rm' ((p # ps) ! i) =
                 placed (qget q (idx + i)) (cell rm ((p # ps) ! i))"
    if i: "i < length (p # ps)" for i
  proof (cases i)
    case 0
    have "in_bounds rm1 p" using p by (simp only: b1)
    then have "cell rm' p = cell rm1 p" using f2 notin by blast
    then show ?thesis unfolding 0 using c1 by simp
  next
    case (Suc k)
    then have k: "k < length ps" using i by simp
    then have mem: "ps ! k \<in> set ps" by simp
    then have "ps ! k \<noteq> p" using notin by auto
    moreover have "in_bounds rm (ps ! k)" using rest mem by blast
    ultimately have "cell rm1 (ps ! k) = cell rm (ps ! k)" using f1 by blast
    then show ?thesis unfolding Suc using c2 k by simp
  qed
  have frame: "cell rm' p' = cell rm p'" if "in_bounds rm p'" "p' \<notin> set (p # ps)" for p'
  proof -
    have "in_bounds rm1 p'" using that(1) by (simp only: b1)
    moreover have "p' \<notin> set ps" "p' \<noteq> p" using that(2) by auto
    ultimately have "cell rm' p' = cell rm1 p'" using f2 by blast
    also have "\<dots> = cell rm p'" using f1 that(1) \<open>p' \<noteq> p\<close> by blast
    finally show ?thesis .
  qed
  show ?case
    using run ok2 d1 d2 n1 n2 cells frame by (intro exI [of _ rm']) simp
qed

section \<open>Occupants\<close>

lemma queue_students_append [simp]:
  "queue_students (xs @ ys) = queue_students xs @ queue_students ys"
  by (simp add: queue_students_def)

lemma queue_students_Nil [simp]: "queue_students [] = []"
  by (simp add: queue_students_def)

lemma queue_students_Cons [simp]:
  "queue_students (x # xs) = seat_students x @ queue_students xs"
  by (simp add: queue_students_def)

lemma queue_students_replicate_None [simp]: "queue_students (replicate n None) = []"
  by (induction n) simp_all

lemma queue_students_map_Some [simp]: "queue_students (map Some xs) = xs"
  by (induction xs) simp_all

lemma row_seat_taken:
  "j < length row \<Longrightarrow> row ! j = None \<Longrightarrow>
   mset (queue_students (row[j := Some st])) = add_mset st (mset (queue_students row))"
proof (induction row arbitrary: j)
  case Nil
  then show ?case by simp
next
  case (Cons x row)
  then show ?case by (cases j) simp_all
qed

lemma grid_seat_taken:
  "i < length g \<Longrightarrow> j < length (g ! i) \<Longrightarrow> g ! i ! j = None \<Longrightarrow>
   mset (queue_students (concat (g[i := (g ! i)[j := Some st]]))) =
   add_mset st (mset (queue_students (concat g)))"
proof (induction g arbitrary: i)
  case Nil
  then show ?case by simp
next
  case (Cons row g)
  then show ?case by (cases i) (simp_all add: row_seat_taken)
qed

lemma occupants_empty_grid [simp]: "queue_students (concat (empty_grid r c)) = []"
proof -
  have "queue_students (concat (replicate n (replicate m None))) = []" for n m
    by (induction n) simp_all
  then show ?thesis by (simp add: empty_grid_def)
qed

lemma occupants_clear [simp]: "occupants (clear_all_seats rm) = []"
  by (simp add: occupants_def clear_all_seats_def)

lemma seat_step_occupants:
  assumes ok: "grid_ok rm" and p: "in_bounds rm p" and free: "cell rm p = None"
  shows "mset (occupants (fst (snd (seat_step q p (rm, idx))))) =
         mset (occupants rm) + mset (seat_students (qget q idx))"
proof (cases "qget q idx")
  case None
  then show ?thesis by (simp add: seat_step_def seat_from_qget)
next
  case (Some st)
  let ?g = "seating_grid rm"
  let ?rm' = "rm\<lparr>seating_grid := ?g[nat (fst p) := (?g ! nat (fst p))[nat (snd p) := Some st]]\<rparr>"
  have "set_seat rm (fst p) (snd p) (Some st) = (Inr (), ?rm')"
    using ok p by (intro set_seat_in_bounds) (simp_all add: in_bounds_def)
  then have s: "seat_step q p (rm, idx) = (Inr (), (?rm', idx + 1))"
    using Some by (simp add: seat_step_def seat_from_qget)
  have r: "nat (fst p) < length ?g" using ok p by (simp add: grid_ok_def in_bounds_def)
  have c: "nat (snd p) < length (?g ! nat (fst p))"
    using grid_ok_row_length [OF ok, of "nat (fst p)"] p by (simp add: in_bounds_def)
  have "mset (occupants ?rm') = add_mset st (mset (occupants rm))"
    using grid_seat_taken [OF r c] free by (simp add: occupants_def cell_def)
  then show ?thesis using s Some by simp
qed

lemma queue_students_take_Suc:
  "queue_students (take (Suc n) (drop idx q)) =
   seat_students (qget q idx) @ queue_students (take n (drop (Suc idx) q))"
proof (cases "idx < length q")
  case True
  then have "drop idx q = q ! idx # drop (Suc idx) q" by (simp add: Cons_nth_drop_Suc)
  then show ?thesis using True by (simp add: qget_def)
next
  case False
  then show ?thesis by (simp add: qget_def)
qed

lemma walk_occupants:
  assumes "grid_ok rm" and "\<forall>p \<in> set ps. in_bounds rm p" and "distinct ps"
    and "\<forall>p \<in> set ps. cell rm p = None"
  shows "mset (occupants (fst (snd (for_each ps (seat_step q) (rm, idx))))) =
         mset (occupants rm) + mset (queue_students (take (length ps) (drop idx q)))"
  using assms
proof (induction ps arbitrary: rm idx)
  case Nil
  then show ?case by simp
next
  case (Cons p ps)
  from Cons.prems have p: "in_bounds rm p" and rest: "\<forall>p' \<in> set ps. in_bounds rm p'"
    and notin: "p \<notin> set ps" and dist: "distinct ps"
    and free: "cell rm p = None" and frees: "\<forall>p' \<in> set ps. cell rm p' = None" by simp_all
  from seat_step_ok [OF Cons.prems(1) p, of q idx]
  obtain rm1 where s1: "seat_step q p (rm, idx) = (Inr (), (rm1, idx + 1))"
    and ok1: "grid_ok rm1" and d1: "rows rm1 = rows rm" "columns rm1 = columns rm"
    and f1: "\<forall>p'. in_bounds rm p' \<longrightarrow> p' \<noteq> p \<longrightarrow> cell rm1 p' = cell rm p'"
    by blast
  have b1: "in_bounds rm1 p' = in_bounds rm p'" for p'
    by (simp add: in_bounds_def d1)
  from rest have rest1: "\<forall>p' \<in> set ps. in_bounds rm1 p'" by (simp add: b1)
  have frees1: "\<forall>p' \<in> set ps. cell rm1 p' = None"
  proof
    fix p' assume m: "p' \<in> set ps"
    then have "p' \<noteq> p" "in_bounds rm p'" using notin rest by auto
    then have "cell rm1 p' = cell rm p'" using f1 by blast
    then show "cell rm1 p' = None" using frees m by simp
  qed
  have o1: "mset (occupants rm1) = mset (occupants rm) + mset (seat_students (qget q idx))"
    using seat_step_occupants [OF Cons.prems(1) p free, of q idx] s1 by simp
  have "mset (occupants (fst (snd (for_each ps (seat_step q) (rm1, idx + 1))))) =
        mset (occupants rm1) + mset (queue_students (take (length ps) (drop (idx + 1) q)))"
    by (rule Cons.IH [OF ok1 rest1 dist frees1])
  then show ?case
    using s1 o1 by (simp add: queue_students_take_Suc)
qed

section \<open>Walking a band\<close>

lemma band_positions_length [simp]: "length (band_positions colf K R) = K * R"
  by (simp add: band_positions_def)

lemma band_positions_set:
  "set (band_positions colf K R) = {(int j, colf k) | k j. k < K \<and> j < R}"
  by (auto simp: band_positions_def image_iff)

lemma band_positions_distinct:
  assumes "inj_on colf {..<K}"
  shows "distinct (band_positions colf K R)"
proof -
  have "inj_on (\<lambda>(k, j). (int j, colf k)) (set (List.product [0..<K] [0..<R]))"
    using assms by (auto simp: inj_on_def)
  then show ?thesis
    by (simp add: band_positions_def distinct_map distinct_product)
qed

lemma band_positions_nth:
  assumes "k < K" and "j < R"
  shows "band_positions colf K R ! (k * R + j) = (int j, colf k)"
proof -
  have "k * R + j < K * R"
  proof -
    have "k * R + j < k * R + R" using assms by simp
    also have "\<dots> = Suc k * R" by simp
    also have "\<dots> \<le> K * R" using assms by (intro mult_le_mono1) simp
    finally show ?thesis .
  qed
  then have lt: "k * R + j < length [0..<K] * length [0..<R]" by simp
  have dm: "(k * R + j) div R = k" "(k * R + j) mod R = j" using assms by simp_all
  have "List.product [0..<K] [0..<R] ! (k * R + j) = (k, j)"
    using product_nth [OF lt] assms by (simp add: dm)
  then show ?thesis
    using lt by (simp add: band_positions_def)
qed

lemma band_walk:
  assumes ok: "grid_ok rm" and R: "R = nat (rows rm)"
    and cols: "\<forall>k < K. 0 \<le> colf k \<and> colf k < columns rm"
    and inj: "inj_on colf {..<K}"
  shows "\<exists>rm'. for_each (band_positions colf K R) (seat_step q) (rm, idx) =
                 (Inr (), (rm', idx + K * R)) \<and>
           grid_ok rm' \<and> rows rm' = rows rm \<and> columns rm' = columns rm \<and>
           room_no rm' = room_no rm \<and>
           (\<forall>k < K. \<forall>j < R. cell rm' (int j, colf k) =
               placed (qget q (idx + (k * R + j))) (cell rm (int j, colf k))) \<and>
           (\<forall>p'. in_bounds rm p' \<longrightarrow> snd p' \<notin> colf ` {..<K} \<longrightarrow> cell rm' p' = cell rm p') \<and>
           ((\<forall>k < K. \<forall>j < R. cell rm (int j, colf k) = None) \<longrightarrow>
              mset (occupants rm') =
              mset (occupants rm) + mset (queue_students (take (K * R) (drop idx q))))"
proof -
  let ?ps = "band_positions colf K R"
  have inb: "\<forall>p \<in> set ?ps. in_bounds rm p"
    using cols R by (auto simp: band_positions_set in_bounds_def)
  have dist: "distinct ?ps" by (rule band_positions_distinct [OF inj])
  from walk_cells [OF ok inb dist, of q idx]
  obtain rm' where run: "for_each ?ps (seat_step q) (rm, idx) = (Inr (), (rm', idx + length ?ps))"
    and ok': "grid_ok rm'" and d: "rows rm' = rows rm" "columns rm' = columns rm"
    and n: "room_no rm' = room_no rm"
    and c: "\<forall>i < length ?ps. cell rm' (?ps ! i) = placed (qget q (idx + i)) (cell rm (?ps ! i))"
    and f: "\<forall>p'. in_bounds rm p' \<longrightarrow> p' \<notin> set ?ps \<longrightarrow> cell rm' p' = cell rm p'"
    by blast
  have cells: "cell rm' (int j, colf k) = placed (qget q (idx + (k * R + j))) (cell rm (int j, colf k))"
    if "k < K" "j < R" for k j
  proof -
    have "k * R + j < k * R + R" using that by simp
    also have "\<dots> = Suc k * R" by simp
    also have "\<dots> \<le> K * R" using that by (intro mult_le_mono1) simp
    finally have "k * R + j < length ?ps" by simp
    then show ?thesis
      using c band_positions_nth [OF that, of colf] by fastforce
  qed
  have frame: "cell rm' p' = cell rm p'" if "in_bounds rm p'" "snd p' \<notin> colf ` {..<K}" for p'
  proof -
    have "p' \<notin> set ?ps" using that(2) by (auto simp: band_positions_set)
    then show ?thesis using f that(1) by blast
  qed
  have occ: "mset (occupants rm') =
             mset (occupants rm) + mset (queue_students (take (K * R) (drop idx q)))"
    if "\<forall>k < K. \<forall>j < R. cell rm (int j, colf k) = None"
  proof -
    have "\<forall>p \<in> set ?ps. cell rm p = None" using that by (auto simp: band_positions_set)
    from walk_occupants [OF ok inb dist this, of q idx] run show ?thesis by simp
  qed
  show ?thesis
    using run ok' d n cells frame occ by (intro exI [of _ rm']) simp
qed

section \<open>The fill loops as band walks\<close>

lemma seat_step_body:
  "(\<lambda>(r, i). case seat_from q i r row col of
       (Inl e, r') \<Rightarrow> (Inl e, (r', i))
     | (Inr u, r') \<Rightarrow> (Inr (), (r', i + 1))) = seat_step q (row, col)"
  by (auto simp: fun_eq_iff seat_step_def split: prod.splits sum.splits)

lemma banded_loop:
  "for_each (range1 K) (\<lambda>c. for_each (range1 R) (\<lambda>r (rm, i).
      case seat_from q i rm (r - 1) (colg c) of
        (Inl e, r') \<Rightarrow> (Inl e, (r', i))
      | (Inr u, r') \<Rightarrow> (Inr (), (r', i + 1)))) s =
   for_each (band_positions (\<lambda>k. colg (int k + 1)) (nat K) (nat R)) (seat_step q) s"
proof -
  have "for_each (range1 K) (\<lambda>c. for_each (range1 R) (\<lambda>r. seat_step q (r - 1, colg c))) s =
        for_each (map (\<lambda>(x, y). (int y + 1 - 1, colg (int x + 1)))
                    (List.product [0..<nat K] [0..<nat R])) (seat_step q) s"
    unfolding range1_nat
    by (rule for_each_nested
        [where f = "\<lambda>k. int k + 1" and g = "\<lambda>k. int k + 1"
           and h = "\<lambda>r c. (r - 1, colg c)" and F = "seat_step q"])
  then show ?thesis
    by (simp add: seat_step_body band_positions_def)
qed

lemma sequential_loop:
  "for_each (range0 K) (\<lambda>col. for_each (range0 R) (\<lambda>row (rm, k).
      case seat_from q k rm row col of
        (Inl e, r') \<Rightarrow> (Inl e, (r', k))
      | (Inr u, r') \<Rightarrow> (Inr (), (r', k + 1)))) s =
   for_each (band_positions int (nat K) (nat R)) (seat_step q) s"
proof -
  have "for_each (range0 K) (\<lambda>c. for_each (range0 R) (\<lambda>r. seat_step q (r, c))) s =
        for_each (map (\<lambda>(x, y). (int y, int x))
                    (List.product [0..<nat K] [0..<nat R])) (seat_step q) s"
    unfolding range0_nat
    by (rule for_each_nested
        [where f = int and g = int and h = "\<lambda>r c. (r, c)" and F = "seat_step q"])
  then show ?thesis
    by (simp add: seat_step_body band_positions_def)
qed

lemma allocate_alternating_seats_band:
  "allocate_alternating_seats rm even_list odd_list idx =
     (case for_each (band_positions (\<lambda>k. 2 * int k) (nat ((columns rm + 1) div 2)) (nat (rows rm)))
             (seat_step odd_list) (rm, fst idx) of
        (Inl e, (rm1, oi)) \<Rightarrow> (Inl e, rm1, oi, snd idx)
      | (Inr u, (rm1, oi)) \<Rightarrow>
          (case for_each (band_positions (\<lambda>k. 2 * int k + 1)
                            (nat (columns rm - (columns rm + 1) div 2)) (nat (rows rm)))
                  (seat_step even_list) (rm1, snd idx) of
             (res, (rm2, ei)) \<Rightarrow> (res, rm2, oi, ei)))"
proof -
  have odd: "(\<lambda>k. (int k + 1) * 2 - 1 - 1) = (\<lambda>k. 2 * int k)" by (simp add: fun_eq_iff)
  have even: "(\<lambda>k. (int k + 1) * 2 - 1) = (\<lambda>k. 2 * int k + 1)" by (simp add: fun_eq_iff)
  show ?thesis
    unfolding allocate_alternating_seats_def Let_def
    by (simp only: banded_loop [where colg = "\<lambda>c. c * 2 - 1 - 1"]
        banded_loop [where colg = "\<lambda>c. c * 2 - 1"] odd even)
qed

lemma allocate_sequential_seats_band:
  "allocate_sequential_seats rm sts =
     (case for_each (band_positions int (nat (columns rm)) (nat (rows rm)))
             (seat_step sts) (rm, 0) of
        (res, (rm', k)) \<Rightarrow> (res, rm'))"
  unfolding allocate_sequential_seats_def by (simp only: sequential_loop)

section \<open>One room\<close>

lemma placed_None [simp]: "placed x None = x"
  by (cases x) (simp_all add: placed_def)

lemma cleared_cells:
  "in_bounds rm p \<Longrightarrow> cell (clear_all_seats rm) p = None"
  by (simp add: cell_def clear_all_seats_def empty_grid_def in_bounds_def)

lemma in_bounds_clear [simp]: "in_bounds (clear_all_seats rm) p = in_bounds rm p"
  by (simp add: in_bounds_def clear_all_seats_def)

lemma clear_fields [simp]:
  "rows (clear_all_seats rm) = rows rm"
  "columns (clear_all_seats rm) = columns rm"
  "room_no (clear_all_seats rm) = room_no rm"
  by (simp_all add: clear_all_seats_def)

lemma odd_band_columns:
  "k < nat ((c + 1) div 2) \<Longrightarrow> 0 \<le> 2 * int k \<and> 2 * int k < c"
  by linarith

lemma even_band_columns:
  "k < nat (c - (c + 1) div 2) \<Longrightarrow> 0 \<le> 2 * int k + 1 \<and> 2 * int k + 1 < c"
  by linarith

lemma even_column_index:
  assumes "0 \<le> col" "col < c" "even col"
  shows "nat (col div 2) < nat ((c + 1) div 2) \<and> col = 2 * int (nat (col div 2))"
  using assms by (auto elim!: evenE)

lemma odd_column_index:
  assumes "0 \<le> col" "col < c" "odd col"
  shows "nat (col div 2) < nat (c - (c + 1) div 2) \<and> col = 2 * int (nat (col div 2)) + 1"
proof -
  from assms(3) obtain b where b: "col = 2 * b + 1" by (elim oddE)
  then have d: "col div 2 = b" by simp
  have "0 \<le> b" "b < c - (c + 1) div 2" using assms(1,2) b by linarith+
  then show ?thesis using b d by simp
qed

lemma alternating_room:
  assumes ok: "grid_ok rm" and empty: "\<forall>p. in_bounds rm p \<longrightarrow> cell rm p = None"
  shows "\<exists>rm'. allocate_alternating_seats rm even_list odd_list (oi, ei) =
                 (Inr (), rm', oi + odd_steps rm, ei + even_steps rm) \<and>
           grid_ok rm' \<and> rows rm' = rows rm \<and> columns rm' = columns rm \<and>
           room_no rm' = room_no rm \<and>
           (\<forall>row col. in_bounds rm (row, col) \<longrightarrow>
               cell rm' (row, col) = banded_seat even_list odd_list (oi, ei) rm row col) \<and>
           mset (occupants rm') =
             mset (occupants rm) +
             mset (queue_students (take (odd_steps rm) (drop oi odd_list))) +
             mset (queue_students (take (even_steps rm) (drop ei even_list)))"
proof -
  let ?R = "nat (rows rm)"
  let ?OC = "nat ((columns rm + 1) div 2)"
  let ?EC = "nat (columns rm - (columns rm + 1) div 2)"
  let ?fo = "\<lambda>k. 2 * int k"
  let ?fe = "\<lambda>k. 2 * int k + 1"
  have co: "\<forall>k < ?OC. 0 \<le> ?fo k \<and> ?fo k < columns rm"
    using odd_band_columns by blast
  have io: "inj_on ?fo {..<?OC}" by (simp add: inj_on_def)
  from band_walk [OF ok refl co io, of odd_list oi]
  obtain rm1 where run1: "for_each (band_positions ?fo ?OC ?R) (seat_step odd_list) (rm, oi) =
                            (Inr (), (rm1, oi + ?OC * ?R))"
    and ok1: "grid_ok rm1" and d1: "rows rm1 = rows rm" "columns rm1 = columns rm"
    and n1: "room_no rm1 = room_no rm"
    and c1: "\<forall>k < ?OC. \<forall>j < ?R. cell rm1 (int j, ?fo k) =
               placed (qget odd_list (oi + (k * ?R + j))) (cell rm (int j, ?fo k))"
    and f1: "\<forall>p'. in_bounds rm p' \<longrightarrow> snd p' \<notin> ?fo ` {..<?OC} \<longrightarrow> cell rm1 p' = cell rm p'"
    and o1: "(\<forall>k < ?OC. \<forall>j < ?R. cell rm (int j, ?fo k) = None) \<longrightarrow>
               mset (occupants rm1) =
               mset (occupants rm) + mset (queue_students (take (?OC * ?R) (drop oi odd_list)))"
    by blast
  have b1: "in_bounds rm1 p = in_bounds rm p" for p by (simp add: in_bounds_def d1)
  have ce: "\<forall>k < ?EC. 0 \<le> ?fe k \<and> ?fe k < columns rm1"
    using even_band_columns d1 by auto
  have ie: "inj_on ?fe {..<?EC}" by (simp add: inj_on_def)
  have R1: "?R = nat (rows rm1)" by (simp add: d1)
  from band_walk [OF ok1 R1 ce ie, of even_list ei]
  obtain rm2 where run2: "for_each (band_positions ?fe ?EC ?R) (seat_step even_list) (rm1, ei) =
                            (Inr (), (rm2, ei + ?EC * ?R))"
    and ok2: "grid_ok rm2" and d2: "rows rm2 = rows rm1" "columns rm2 = columns rm1"
    and n2: "room_no rm2 = room_no rm1"
    and c2: "\<forall>k < ?EC. \<forall>j < ?R. cell rm2 (int j, ?fe k) =
               placed (qget even_list (ei + (k * ?R + j))) (cell rm1 (int j, ?fe k))"
    and f2: "\<forall>p'. in_bounds rm1 p' \<longrightarrow> snd p' \<notin> ?fe ` {..<?EC} \<longrightarrow> cell rm2 p' = cell rm1 p'"
    and o2: "(\<forall>k < ?EC. \<forall>j < ?R. cell rm1 (int j, ?fe k) = None) \<longrightarrow>
               mset (occupants rm2) =
               mset (occupants rm1) + mset (queue_students (take (?EC * ?R) (drop ei even_list)))"
    by blast
  have run: "allocate_alternating_seats rm even_list odd_list (oi, ei) =
               (Inr (), rm2, oi + odd_steps rm, ei + even_steps rm)"
    using run1 run2 by (simp add: allocate_alternating_seats_band odd_steps_def even_steps_def)
  have odd_free: "cell rm (int j, ?fo k) = None" if "k < ?OC" "j < ?R" for k j
  proof -
    have "in_bounds rm (int j, ?fo k)" using that co by (simp add: in_bounds_def)
    then show ?thesis using empty by blast
  qed
  have even_free1: "cell rm1 (int j, ?fe k) = None" if "k < ?EC" "j < ?R" for k j
  proof -
    have inb: "in_bounds rm (int j, ?fe k)" using that ce d1 by (simp add: in_bounds_def)
    have "?fe k \<noteq> ?fo k'" for k' by presburger
    then have "?fe k \<notin> ?fo ` {..<?OC}" by blast
    then have "cell rm1 (int j, ?fe k) = cell rm (int j, ?fe k)" using f1 inb by simp
    then show ?thesis using empty inb by simp
  qed
  have cells: "cell rm2 (row, col) = banded_seat even_list odd_list (oi, ei) rm row col"
    if inb: "in_bounds rm (row, col)" for row col
  proof -
    from inb have rw: "0 \<le> row" "row < rows rm" and cl: "0 \<le> col" "col < columns rm"
      by (simp_all add: in_bounds_def)
    let ?j = "nat row" and ?k = "nat (col div 2)"
    have j: "?j < ?R" "row = int ?j" using rw by simp_all
    show ?thesis
    proof (cases "even col")
      case True
      from even_column_index [OF cl True] have k: "?k < ?OC" "col = ?fo ?k" by simp_all
      have "col \<notin> ?fe ` {..<?EC}" using True by auto
      then have "cell rm2 (row, col) = cell rm1 (row, col)"
        using f2 inb by (simp add: b1)
      also have "cell rm1 (row, col) = cell rm1 (int ?j, ?fo ?k)" using j k by simp
      also have "\<dots> = placed (qget odd_list (oi + (?k * ?R + ?j))) (cell rm (int ?j, ?fo ?k))"
        using c1 k(1) j(1) by blast
      also have "\<dots> = qget odd_list (oi + (?k * ?R + ?j))"
        using odd_free [OF k(1) j(1)] by simp
      finally show ?thesis using True by (simp add: banded_seat_def add.assoc)
    next
      case False
      from odd_column_index [OF cl False] have k: "?k < ?EC" "col = ?fe ?k" by simp_all
      have "cell rm2 (row, col) = cell rm2 (int ?j, ?fe ?k)" using j k by simp
      also have "\<dots> = placed (qget even_list (ei + (?k * ?R + ?j))) (cell rm1 (int ?j, ?fe ?k))"
        using c2 k(1) j(1) by blast
      also have "\<dots> = qget even_list (ei + (?k * ?R + ?j))"
        using even_free1 [OF k(1) j(1)] by simp
      finally show ?thesis using False by (simp add: banded_seat_def add.assoc)
    qed
  qed
  have occ: "mset (occupants rm2) =
             mset (occupants rm) +
             mset (queue_students (take (odd_steps rm) (drop oi odd_list))) +
             mset (queue_students (take (even_steps rm) (drop ei even_list)))"
    using o1 o2 odd_free even_free1 by (simp add: odd_steps_def even_steps_def)
  show ?thesis
    using run ok2 d1 d2 n1 n2 cells occ by (intro exI [of _ rm2]) simp
qed

lemma sequential_room:
  assumes ok: "grid_ok rm" and empty: "\<forall>p. in_bounds rm p \<longrightarrow> cell rm p = None"
  shows "\<exists>rm'. allocate_sequential_seats rm q = (Inr (), rm') \<and>
           grid_ok rm' \<and> rows rm' = rows rm \<and> columns rm' = columns rm \<and>
           room_no rm' = room_no rm \<and>
           (\<forall>row col. in_bounds rm (row, col) \<longrightarrow>
               cell rm' (row, col) = sequential_seat q rm row col) \<and>
           mset (occupants rm') =
             mset (occupants rm) +
             mset (queue_students (take (nat (columns rm) * nat (rows rm)) q))"
proof -
  let ?R = "nat (rows rm)"
  let ?C = "nat (columns rm)"
  have cs: "\<forall>k < ?C. 0 \<le> int k \<and> int k < columns rm" by auto
  have inj: "inj_on int {..<?C}" by (simp add: inj_on_def)
  from band_walk [OF ok refl cs inj, of q 0]
  obtain rm' where run1: "for_each (band_positions int ?C ?R) (seat_step q) (rm, 0) =
                            (Inr (), (rm', 0 + ?C * ?R))"
    and ok': "grid_ok rm'" and d: "rows rm' = rows rm" "columns rm' = columns rm"
    and n: "room_no rm' = room_no rm"
    and c: "\<forall>k < ?C. \<forall>j < ?R. cell rm' (int j, int k) =
               placed (qget q (0 + (k * ?R + j))) (cell rm (int j, int k))"
    and o: "(\<forall>k < ?C. \<forall>j < ?R. cell rm (int j, int k) = None) \<longrightarrow>
               mset (occupants rm') =
               mset (occupants rm) + mset (queue_students (take (?C * ?R) (drop 0 q)))"
    by blast
  have run: "allocate_sequential_seats rm q = (Inr (), rm')"
    using run1 by (simp add: allocate_sequential_seats_band)
  have free: "cell rm (int j, int k) = None" if "k < ?C" "j < ?R" for k j
  proof -
    have "int j < rows rm" "int k < columns rm" using that by linarith+
    then have "in_bounds rm (int j, int k)" by (simp add: in_bounds_def)
    then show ?thesis using empty by blast
  qed
  have cells: "cell rm' (row, col) = sequential_seat q rm row col"
    if inb: "in_bounds rm (row, col)" for row col
  proof -
    from inb have j: "nat row < ?R" "row = int (nat row)" and k: "nat col < ?C" "col = int (nat col)"
      by (simp_all add: in_bounds_def)
    have "cell rm' (row, col) = cell rm' (int (nat row), int (nat col))" using j k by simp
    also have "\<dots> = placed (qget q (0 + (nat col * ?R + nat row))) (cell rm (int (nat row), int (nat col)))"
      using c k(1) j(1) by blast
    also have "\<dots> = qget q (nat col * ?R + nat row)"
      using free [OF k(1) j(1)] by simp
    finally show ?thesis by (simp add: sequential_seat_def)
  qed
  have occ: "mset (occupants rm') =
             mset (occupants rm) + mset (queue_students (take (?C * ?R) q))"
    using o free by simp
  show ?thesis
    using run ok' d n cells occ by (intro exI [of _ rm']) simp
qed

section \<open>The room loop\<close>

lemma allocate_rooms_no_students:
  "allocate_rooms n [] [] rms idx = (Inr (), map clear_all_seats rms, idx)"
  by (induction rms) simp_all

lemma allocate_rooms_banded:
  assumes n: "1 < n" and ne: "\<not> (even_list = [] \<and> odd_list = [])"
  shows "\<exists>rms'. allocate_rooms n even_list odd_list rms (oi, ei) =
                  (Inr (), rms', oi + sum_list (map odd_steps rms),
                                 ei + sum_list (map even_steps rms)) \<and>
           length rms' = length rms \<and>
           (\<forall>j < length rms.
               grid_ok (rms' ! j) \<and> rows (rms' ! j) = rows (rms ! j) \<and>
               columns (rms' ! j) = columns (rms ! j) \<and> room_no (rms' ! j) = room_no (rms ! j) \<and>
               (\<forall>row col. in_bounds (rms ! j) (row, col) \<longrightarrow>
                  cell (rms' ! j) (row, col) =
                  banded_seat even_list odd_list
                    (oi + sum_list (map odd_steps (take j rms)),
                     ei + sum_list (map even_steps (take j rms))) (rms ! j) row col)) \<and>
           mset (concat (map occupants rms')) =
             mset (queue_students (take (sum_list (map odd_steps rms)) (drop oi odd_list))) +
             mset (queue_students (take (sum_list (map even_steps rms)) (drop ei even_list)))"
proof (induction rms arbitrary: oi ei)
  case Nil
  then show ?case by simp
next
  case (Cons rm rms)
  let ?rm0 = "clear_all_seats rm"
  have ok0: "grid_ok ?rm0" by (rule grid_ok_clear)
  have e0: "\<forall>p. in_bounds ?rm0 p \<longrightarrow> cell ?rm0 p = None" by (simp add: cleared_cells)
  from alternating_room [OF ok0 e0, of even_list odd_list oi ei]
  obtain rm1 where a1: "allocate_alternating_seats ?rm0 even_list odd_list (oi, ei) =
                          (Inr (), rm1, oi + odd_steps ?rm0, ei + even_steps ?rm0)"
    and ok1: "grid_ok rm1" and d1: "rows rm1 = rows rm" "columns rm1 = columns rm"
    and n1: "room_no rm1 = room_no rm"
    and c1: "\<forall>row col. in_bounds ?rm0 (row, col) \<longrightarrow>
               cell rm1 (row, col) = banded_seat even_list odd_list (oi, ei) ?rm0 row col"
    and o1: "mset (occupants rm1) =
               mset (occupants ?rm0) +
               mset (queue_students (take (odd_steps ?rm0) (drop oi odd_list))) +
               mset (queue_students (take (even_steps ?rm0) (drop ei even_list)))"
    by auto
  have st: "odd_steps ?rm0 = odd_steps rm" "even_steps ?rm0 = even_steps rm"
    by (simp_all add: odd_steps_def even_steps_def)
  have bs: "banded_seat even_list odd_list i ?rm0 row col = banded_seat even_list odd_list i rm row col"
    for i row col by (simp add: banded_seat_def)
  from Cons.IH [of "oi + odd_steps rm" "ei + even_steps rm"]
  obtain rms' where a2: "allocate_rooms n even_list odd_list rms (oi + odd_steps rm, ei + even_steps rm) =
                          (Inr (), rms', oi + odd_steps rm + sum_list (map odd_steps rms),
                                         ei + even_steps rm + sum_list (map even_steps rms))"
    and l2: "length rms' = length rms"
    and r2: "\<forall>j < length rms.
               grid_ok (rms' ! j) \<and> rows (rms' ! j) = rows (rms ! j) \<and>
               columns (rms' ! j) = columns (rms ! j) \<and> room_no (rms' ! j) = room_no (rms ! j) \<and>
               (\<forall>row col. in_bounds (rms ! j) (row, col) \<longrightarrow>
                  cell (rms' ! j) (row, col) =
                  banded_seat even_list odd_list
                    (oi + odd_steps rm + sum_list (map odd_steps (take j rms)),
                     ei + even_steps rm + sum_list (map even_steps (take j rms))) (rms ! j) row col)"
    and o2: "mset (concat (map occupants rms')) =
             mset (queue_students (take (sum_list (map odd_steps rms)) (drop (oi + odd_steps rm) odd_list))) +
             mset (queue_students (take (sum_list (map even_steps rms)) (drop (ei + even_steps rm) even_list)))"
    by blast
  have run: "allocate_rooms n even_list odd_list (rm # rms) (oi, ei) =
               (Inr (), rm1 # rms', oi + sum_list (map odd_steps (rm # rms)),
                                    ei + sum_list (map even_steps (rm # rms)))"
    using n ne a1 a2 by (auto simp: Let_def st add.assoc)
  have each: "grid_ok ((rm1 # rms') ! j) \<and> rows ((rm1 # rms') ! j) = rows ((rm # rms) ! j) \<and>
               columns ((rm1 # rms') ! j) = columns ((rm # rms) ! j) \<and>
               room_no ((rm1 # rms') ! j) = room_no ((rm # rms) ! j) \<and>
               (\<forall>row col. in_bounds ((rm # rms) ! j) (row, col) \<longrightarrow>
                  cell ((rm1 # rms') ! j) (row, col) =
                  banded_seat even_list odd_list
                    (oi + sum_list (map odd_steps (take j (rm # rms))),
                     ei + sum_list (map even_steps (take j (rm # rms)))) ((rm # rms) ! j) row col)"
    if j: "j < length (rm # rms)" for j
  proof (cases j)
    case 0
    then show ?thesis using ok1 d1 n1 c1 by (simp add: bs)
  next
    case (Suc j')
    then have "j' < length rms" using j by simp
    then show ?thesis using r2 Suc by (simp add: add.assoc)
  qed
  have split: "take (a + b) (drop i q) = take a (drop i q) @ take b (drop (i + a) q)"
    for a b i and q :: queue
    by (simp add: take_add add.commute)
  have occ: "mset (concat (map occupants (rm1 # rms'))) =
             mset (queue_students (take (sum_list (map odd_steps (rm # rms))) (drop oi odd_list))) +
             mset (queue_students (take (sum_list (map even_steps (rm # rms))) (drop ei even_list)))"
    using o1 o2 by (simp add: st split)
  show ?case
    using run l2 each occ by (intro exI [of _ "rm1 # rms'"]) simp
qed

lemma allocate_rooms_sequential:
  assumes n: "\<not> 1 < n" and ne: "\<not> (even_list = [] \<and> odd_list = [])"
  shows "\<exists>rms'. allocate_rooms n even_list odd_list rms idx = (Inr (), rms', idx) \<and>
           length rms' = length rms \<and>
           (\<forall>j < length rms.
               grid_ok (rms' ! j) \<and> rows (rms' ! j) = rows (rms ! j) \<and>
               columns (rms' ! j) = columns (rms ! j) \<and> room_no (rms' ! j) = room_no (rms ! j) \<and>
               (\<forall>row col. in_bounds (rms ! j) (row, col) \<longrightarrow>
                  cell (rms' ! j) (row, col) =
                  sequential_seat (even_list @ odd_list) (rms ! j) row col))"
proof (induction rms)
  case Nil
  then show ?case by simp
next
  case (Cons rm rms)
  let ?rm0 = "clear_all_seats rm"
  have ok0: "grid_ok ?rm0" by (rule grid_ok_clear)
  have e0: "\<forall>p. in_bounds ?rm0 p \<longrightarrow> cell ?rm0 p = None" by (simp add: cleared_cells)
  from sequential_room [OF ok0 e0, of "even_list @ odd_list"]
  obtain rm1 where a1: "allocate_sequential_seats ?rm0 (even_list @ odd_list) = (Inr (), rm1)"
    and ok1: "grid_ok rm1" and d1: "rows rm1 = rows rm" "columns rm1 = columns rm"
    and n1: "room_no rm1 = room_no rm"
    and c1: "\<forall>row col. in_bounds ?rm0 (row, col) \<longrightarrow>
               cell rm1 (row, col) = sequential_seat (even_list @ odd_list) ?rm0 row col"
    by auto
  have ss: "sequential_seat q ?rm0 row col = sequential_seat q rm row col" for q row col
    by (simp add: sequential_seat_def)
  from Cons.IH
  obtain rms' where a2: "allocate_rooms n even_list odd_list rms idx = (Inr (), rms', idx)"
    and l2: "length rms' = length rms"
    and r2: "\<forall>j < length rms.
               grid_ok (rms' ! j) \<and> rows (rms' ! j) = rows (rms ! j) \<and>
               columns (rms' ! j) = columns (rms ! j) \<and> room_no (rms' ! j) = room_no (rms ! j) \<and>
               (\<forall>row col. in_bounds (rms ! j) (row, col) \<longrightarrow>
                  cell (rms' ! j) (row, col) =
                  sequential_seat (even_list @ odd_list) (rms ! j) row col)"
    by blast
  have run: "allocate_rooms n even_list odd_list (rm # rms) idx = (Inr (), rm1 # rms', idx)"
    using n ne a1 a2 by (cases idx) (auto simp: Let_def)
  have each: "grid_ok ((rm1 # rms') ! j) \<and> rows ((rm1 # rms') ! j) = rows ((rm # rms) ! j) \<and>
               columns ((rm1 # rms') ! j) = columns ((rm # rms) ! j) \<and>
               room_no ((rm1 # rms') ! j) = room_no ((rm # rms) ! j) \<and>
               (\<forall>row col. in_bounds ((rm # rms) ! j) (row, col) \<longrightarrow>
                  cell ((rm1 # rms') ! j) (row, col) =
                  sequential_seat (even_list @ odd_list) ((rm # rms) ! j) row col)"
    if j: "j < length (rm # rms)" for j
  proof (cases j)
    case 0
    then show ?thesis using ok1 d1 n1 c1 by (simp add: ss)
  next
    case (Suc j')
    then have "j' < length rms" using j by simp
    then show ?thesis using r2 Suc by simp
  qed
  show ?case
    using run l2 each by (intro exI [of _ "rm1 # rms'"]) simp
qed

text \<open>Whatever the queues, the room loop ends normally and leaves every room with its
  number and dimensions, and a grid of those dimensions.\<close>

lemma allocate_rooms_returns:
  "\<exists>rms' idx'. allocate_rooms n even_list odd_list rms idx = (Inr (), rms', idx') \<and>
     length rms' = length rms \<and>
     (\<forall>j < length rms.
         grid_ok (rms' ! j) \<and> rows (rms' ! j) = rows (rms ! j) \<and>
         columns (rms' ! j) = columns (rms ! j) \<and> room_no (rms' ! j) = room_no (rms ! j))"
proof (cases "even_list = [] \<and> odd_list = []")
  case True
  then show ?thesis
    by (simp add: allocate_rooms_no_students grid_ok_clear)
next
  case ne: False
  show ?thesis
  proof (cases "1 < n")
    case True
    obtain oi ei where idx: "idx = (oi, ei)" by (cases idx)
    from allocate_rooms_banded [OF True ne, of rms oi ei] show ?thesis
      unfolding idx by blast
  next
    case False
    from allocate_rooms_sequential [OF False ne, of rms idx] show ?thesis by blast
  qed
qed

section \<open>Grouping and queues keep the roster\<close>

lemma update_absent: "map_of d k = None \<Longrightarrow> AList.update k v d = d @ [(k, v)]"
  by (induction d) (auto split: if_splits)

lemma update_group_students:
  "map_of d k = Some g \<Longrightarrow>
   mset (concat (map snd (AList.update k (g @ [st]) d))) = add_mset st (mset (concat (map snd d)))"
  by (induction d) (auto split: if_splits)

lemma group_student_cases:
  "group_student d st =
     (case map_of d (branch_name st) of
        None \<Rightarrow> d @ [(branch_name st, [st])]
      | Some g \<Rightarrow> AList.update (branch_name st) (g @ [st]) d)"
proof (cases "map_of d (branch_name st)")
  case None
  then have "AList.update (branch_name st) [] d = d @ [(branch_name st, [])]"
    by (rule update_absent)
  moreover have "AList.update (branch_name st) [st] (d @ [(branch_name st, [])]) =
                 d @ [(branch_name st, [st])]"
    using None by (induction d) (auto split: if_splits)
  ultimately show ?thesis using None by (simp add: group_student_def Let_def map_add_def)
next
  case (Some g)
  then show ?thesis by (simp add: group_student_def)
qed

lemma group_student_students:
  "mset (concat (map snd (group_student d st))) = add_mset st (mset (concat (map snd d)))"
  by (cases "map_of d (branch_name st)")
    (simp_all add: group_student_cases update_group_students)

lemma grouping_students:
  "mset (concat (map snd (foldl group_student d sts))) = mset (concat (map snd d)) + mset sts"
  by (induction sts arbitrary: d) (simp_all add: group_student_students)

lemma get_students_by_branch_students:
  "mset (concat (map snd (get_students_by_branch s))) = mset (students s)"
  by (simp add: get_students_by_branch_def grouping_students)

lemma place_groups_students:
  "mset (queue_students (fst (place_groups gs (a, b)))) +
   mset (queue_students (snd (place_groups gs (a, b)))) =
   mset (queue_students a) + mset (queue_students b) + mset (concat gs)"
  by (induction gs arbitrary: a b) simp_all

lemma pad_queues_students [simp]:
  "queue_students (fst (pad_queues q)) = queue_students (fst q)"
  "queue_students (snd (pad_queues q)) = queue_students (snd q)"
  by (simp_all add: pad_queues_def)

lemma two_queues_students:
  "mset (queue_students (fst (two_queues gs))) + mset (queue_students (snd (two_queues gs))) =
   mset (concat gs)"
proof (cases gs rule: two_queues.cases)
  case 1
  then show ?thesis by simp
next
  case (2 g)
  then show ?thesis by simp
next
  case (3 g1 g2 rest)
  then show ?thesis
    using place_groups_students [of rest "map Some g1" "map Some g2"] by simp
qed

lemma queues_students:
  assumes "create_even_odd_lists (get_students_by_branch s) = (even_list, odd_list)"
  shows "mset (queue_students even_list) + mset (queue_students odd_list) = mset (students s)"
proof -
  have "create_even_odd_lists (get_students_by_branch s) =
        two_queues (map snd (get_students_by_branch s))"
    by (simp add: create_even_odd_lists_distribute distribute_two_queues)
  then have "two_queues (map snd (get_students_by_branch s)) = (even_list, odd_list)"
    using assms by simp
  then show ?thesis
    using two_queues_students [of "map snd (get_students_by_branch s)"]
    by (simp add: get_students_by_branch_students)
qed

lemma queues_same_length:
  assumes "create_even_odd_lists groups = (even_list, odd_list)"
  shows "length even_list = length odd_list"
  using assms pad_queues_length [of "distribute 0 (map snd groups) ([], [])"]
  by (simp add: create_even_odd_lists_distribute)

lemma taken_students_subset: "mset (queue_students (take n q)) \<subseteq># mset (queue_students q)"
proof -
  have "queue_students q = queue_students (take n q) @ queue_students (drop n q)"
    by (simp flip: queue_students_append)
  then show ?thesis by (metis mset_append mset_subset_eq_add_left)
qed

section \<open>The session\<close>

lemma allocate_seats_rejected:
  "\<not> has_sufficient_capacity s \<Longrightarrow> allocate_seats s = (Inr False, s)"
  by (simp add: allocate_seats_def)

lemma allocate_seats_accepted:
  assumes "has_sufficient_capacity s"
    and "create_even_odd_lists (get_students_by_branch s) = (even_list, odd_list)"
    and "allocate_rooms (length (get_students_by_branch s)) even_list odd_list (rooms s) (0, 0) =
           (Inr (), rms', idx')"
  shows "allocate_seats s = (Inr True, s\<lparr>rooms := rms'\<rparr>)"
  using assms by (simp add: allocate_seats_def Let_def)

lemma allocate_seats_returns:
  "\<exists>rms'. allocate_seats s = (Inr (has_sufficient_capacity s), s\<lparr>rooms := rms'\<rparr>) \<and>
     (\<not> has_sufficient_capacity s \<longrightarrow> rms' = rooms s) \<and>
     length rms' = length (rooms s) \<and>
     (\<forall>j < length (rooms s).
         (has_sufficient_capacity s \<longrightarrow> grid_ok (rms' ! j)) \<and>
         rows (rms' ! j) = rows (rooms s ! j) \<and>
         columns (rms' ! j) = columns (rooms s ! j) \<and> room_no (rms' ! j) = room_no (rooms s ! j))"
proof (cases "has_sufficient_capacity s")
  case False
  then show ?thesis
    by (intro exI [of _ "rooms s"]) (simp add: allocate_seats_rejected)
next
  case True
  obtain even_list odd_list
    where q: "create_even_odd_lists (get_students_by_branch s) = (even_list, odd_list)"
    by (cases "create_even_odd_lists (get_students_by_branch s)")
  from allocate_rooms_returns
    [of "length (get_students_by_branch s)" even_list odd_list "rooms s" "(0, 0)"]
  obtain rms' idx'
    where run: "allocate_rooms (length (get_students_by_branch s)) even_list odd_list (rooms s) (0, 0) =
                  (Inr (), rms', idx')"
      and len: "length rms' = length (rooms s)"
      and each: "\<forall>j < length (rooms s).
                   grid_ok (rms' ! j) \<and> rows (rms' ! j) = rows (rooms s ! j) \<and>
                   columns (rms' ! j) = columns (rooms s ! j) \<and>
                   room_no (rms' ! j) = room_no (rooms s ! j)"
    by blast
  have "allocate_seats s = (Inr True, s\<lparr>rooms := rms'\<rparr>)"
    by (rule allocate_seats_accepted [OF True q run])
  then show ?thesis
    using True len each by (intro exI [of _ rms']) simp
qed

section \<open>Branch groups in first-seen order\<close>

lemma first_seen_snoc:
  "first_seen (xs @ [x]) = (if x \<in> set xs then first_seen xs else first_seen xs @ [x])"
  by (simp add: first_seen_def)

lemma first_seen_set [simp]: "set (first_seen xs) = set xs"
  by (simp add: first_seen_def)

lemma first_seen_distinct [simp]: "distinct (first_seen xs)"
  by (simp add: first_seen_def)

lemma map_of_tabulated:
  "map_of (map (\<lambda>b. (b, f b)) ks) k = (if k \<in> set ks then Some (f k) else None)"
  by (induction ks) auto

lemma update_tabulated:
  "distinct ks \<Longrightarrow> k \<in> set ks \<Longrightarrow>
   AList.update k v (map (\<lambda>b. (b, f b)) ks) = map (\<lambda>b. (b, if b = k then v else f b)) ks"
proof (induction ks)
  case Nil
  then show ?case by simp
next
  case (Cons a ks)
  show ?case
  proof (cases "a = k")
    case True
    then have "k \<notin> set ks" using Cons.prems by simp
    then have "map (\<lambda>b. (b, if b = k then v else f b)) ks = map (\<lambda>b. (b, f b)) ks"
      by (intro map_cong) auto
    then show ?thesis using True by simp
  next
    case False
    then show ?thesis using Cons by simp
  qed
qed

lemma grouping_first_seen:
  "foldl group_student [] sts =
   map (\<lambda>b. (b, filter (\<lambda>st. branch_name st = b) sts)) (first_seen (map branch_name sts))"
proof (induction sts rule: rev_induct)
  case Nil
  then show ?case by (simp add: first_seen_def)
next
  case (snoc x xs)
  let ?k = "branch_name x"
  let ?ks = "first_seen (map branch_name xs)"
  let ?G = "map (\<lambda>b. (b, filter (\<lambda>st. branch_name st = b) xs)) ?ks"
  have step: "foldl group_student [] (xs @ [x]) = group_student ?G x"
    using snoc.IH by simp
  show ?case
  proof (cases "?k \<in> set (map branch_name xs)")
    case True
    then have mem: "?k \<in> set ?ks" by simp
    have look: "map_of ?G ?k = Some (filter (\<lambda>st. branch_name st = ?k) xs)"
      using mem by (simp add: map_of_tabulated)
    have "group_student ?G x =
          AList.update ?k (filter (\<lambda>st. branch_name st = ?k) xs @ [x]) ?G"
      using look by (simp add: group_student_cases)
    also have "\<dots> = map (\<lambda>b. (b, if b = ?k then filter (\<lambda>st. branch_name st = ?k) xs @ [x]
                                     else filter (\<lambda>st. branch_name st = b) xs)) ?ks"
      using mem by (intro update_tabulated) simp_all
    also have "\<dots> = map (\<lambda>b. (b, filter (\<lambda>st. branch_name st = b) (xs @ [x]))) ?ks"
      by (intro map_cong) auto
    finally show ?thesis
      using step True by (simp add: first_seen_snoc)
  next
    case False
    then have nomem: "?k \<notin> set ?ks" by simp
    have look: "map_of ?G ?k = None"
      using nomem by (simp add: map_of_tabulated)
    have "\<forall>st \<in> set xs. branch_name st \<noteq> ?k"
      using False by (metis image_eqI list.set_map)
    then have none: "filter (\<lambda>st. branch_name st = ?k) xs = []"
      by (simp add: filter_empty_conv)
    have g1: "group_student ?G x = ?G @ [(?k, [x])]"
      using look by (simp add: group_student_cases)
    have g2: "map (\<lambda>b. (b, filter (\<lambda>st. branch_name st = b) (xs @ [x]))) ?ks = ?G"
      using nomem by (intro map_cong) auto
    have fs: "first_seen (map branch_name (xs @ [x])) = ?ks @ [?k]"
      using False by (simp add: first_seen_snoc)
    let ?F = "\<lambda>b. (b, filter (\<lambda>st. branch_name st = b) (xs @ [x]))"
    have "foldl group_student [] (xs @ [x]) = ?G @ [(?k, [x])]"
      by (simp only: step g1)
    also have "\<dots> = map ?F ?ks @ map ?F [?k]"
      by (simp only: g2) (simp add: none)
    also have "\<dots> = map ?F (?ks @ [?k])"
      by (simp only: map_append)
    also have "\<dots> = map ?F (first_seen (map branch_name (xs @ [x])))"
      by (simp only: fs)
    finally show ?thesis .
  qed
qed

lemma get_students_by_branch_first_seen:
  "get_students_by_branch s =
   map (\<lambda>b. (b, filter (\<lambda>st. branch_name st = b) (students s)))
     (first_seen (map branch_name (students s)))"
  by (simp add: get_students_by_branch_def grouping_first_seen)

lemma place_groups_prefix:
  "prefix a (fst (place_groups gs (a, b))) \<and> prefix b (snd (place_groups gs (a, b)))"
proof (induction gs arbitrary: a b)
  case Nil
  then show ?case by simp
next
  case (Cons g gs)
  show ?case
  proof (cases "length a > length b")
    case True
    have "prefix b (b @ map Some g)" by simp
    then show ?thesis
      using True Cons.IH [of a "b @ map Some g"] by (auto dest: append_prefixD)
  next
    case False
    have "prefix a (a @ map Some g)" by simp
    then show ?thesis
      using False Cons.IH [of "a @ map Some g" b] by (auto dest: append_prefixD)
  qed
qed

lemma pad_queues_prefix:
  "prefix (fst q) (fst (pad_queues q)) \<and> prefix (snd q) (snd (pad_queues q))"
  by (simp add: pad_queues_def)

lemma queue_heads:
  assumes "1 < length groups"
  shows "prefix (map Some (snd (groups ! 0))) (fst (create_even_odd_lists groups)) \<and>
         prefix (map Some (snd (groups ! 1))) (snd (create_even_odd_lists groups))"
proof -
  from assms obtain g1 g2 rest where g: "groups = g1 # g2 # rest"
    by (cases groups; cases "tl groups") auto
  let ?q = "place_groups (map snd rest) (map Some (snd g1), map Some (snd g2))"
  have "create_even_odd_lists groups = two_queues (map snd groups)"
    by (simp only: create_even_odd_lists_distribute distribute_two_queues)
  then have c: "create_even_odd_lists groups = pad_queues ?q"
    using g by simp
  have "prefix (map Some (snd g1)) (fst ?q)" "prefix (map Some (snd g2)) (snd ?q)"
    using place_groups_prefix [of "map Some (snd g1)" "map snd rest" "map Some (snd g2)"]
    by simp_all
  moreover have "prefix (fst ?q) (fst (pad_queues ?q))" "prefix (snd ?q) (snd (pad_queues ?q))"
    using pad_queues_prefix [of ?q] by simp_all
  ultimately show ?thesis
    using g c by (auto intro: prefix_order.trans)
qed

section \<open>The capacity gate\<close>

text \<open>
  C2. \<^verbatim>\<open>allocate_seats\<close> never raises; it returns success exactly when the sum of
  rows times columns over the rooms of the session is at least the number of students, and
  when it returns failure the session, every room and grid included, is as it was before
  the call.
\<close>

theorem allocate_seats_capacity_gate:
  "fst (allocate_seats s) =
     Inr (int (length (students s)) \<le> (\<Sum>rm\<leftarrow>rooms s. rows rm * columns rm)) \<and>
   (fst (allocate_seats s) = Inr False \<longrightarrow> snd (allocate_seats s) = s)"
proof -
  have cap: "has_sufficient_capacity s \<longleftrightarrow>
             int (length (students s)) \<le> (\<Sum>rm\<leftarrow>rooms s. rows rm * columns rm)"
    by (simp add: has_sufficient_capacity_def get_total_capacity_def capacity_def fun_eq_iff
        cong: map_cong)
  from allocate_seats_returns [of s]
  obtain rms' where run: "allocate_seats s = (Inr (has_sufficient_capacity s), s\<lparr>rooms := rms'\<rparr>)"
    and same: "\<not> has_sufficient_capacity s \<longrightarrow> rms' = rooms s"
    by blast
  show ?thesis using run same cap by auto
qed

theorem allocate_seats_capacity_gate_witness:
  "fst (allocate_seats small_room_session) = Inr False \<and>
   snd (allocate_seats small_room_session) = small_room_session \<and>
   fst (allocate_seats wide_room_session) = Inr True"
proof -
  have a: "\<not> int (length (students small_room_session)) \<le>
             (\<Sum>rm\<leftarrow>rooms small_room_session. rows rm * columns rm)"
    by (simp add: small_room_session_def Room_def)
  have b: "int (length (students wide_room_session)) \<le>
             (\<Sum>rm\<leftarrow>rooms wide_room_session. rows rm * columns rm)"
    by (simp add: wide_room_session_def Room_def)
  show ?thesis
    using allocate_seats_capacity_gate [of small_room_session]
      allocate_seats_capacity_gate [of wide_room_session] a b
    by simp
qed

section \<open>Conservation\<close>

text \<open>
  C1. The capacity gate compares the roster with the total capacity, but in the banded
  path each queue can only be seated in its own band of columns, and nothing checks the
  bands. Two students of two branches and one room of two rows and one column pass the
  gate and the call returns success, which its docstring calls a successful allocation;
  the single column belongs to the odd band, so only the student of \<^verbatim>\<open>odd_list\<close> is
  seated and the other student has no seat. In the same way twelve ECE and twelve CSE
  students in one room of five rows and five columns pass the gate, and 22 of the 24 are
  seated: the two even-positioned columns hold ten of the twelve students of
  \<^verbatim>\<open>even_list\<close>.
\<close>

theorem allocate_seats_drops_students:
  "has_sufficient_capacity narrow_room_session \<and>
   fst (allocate_seats narrow_room_session) = Inr True \<and>
   students narrow_room_session = [ece1, cse1] \<and>
   concat (map occupants (rooms (snd (allocate_seats narrow_room_session)))) = [cse1] \<and>
   map fst (get_students_by_branch full_room_session) = [Some ''ECE'', Some ''CSE''] \<and>
   has_sufficient_capacity full_room_session \<and>
   fst (allocate_seats full_room_session) = Inr True \<and>
   length (students full_room_session) = 24 \<and>
   length (concat (map occupants (rooms (snd (allocate_seats full_room_session))))) = 22"
  by code_simp

text \<open>
  What the banded path does keep: in a session with more than one branch group that
  passes the gate, nobody is seated twice and nobody outside the roster is seated (the
  occupants of all rooms form a sub-multiset of the roster), and when each band offers as
  many cursor steps over all rooms as its queue is long, the occupants are exactly the
  roster.
\<close>

lemma banded_occupants_within_roster:
  assumes gate: "has_sufficient_capacity s"
    and multi: "1 < length (get_students_by_branch s)"
  shows "fst (allocate_seats s) = Inr True \<and>
         mset (concat (map occupants (rooms (snd (allocate_seats s))))) \<subseteq># mset (students s) \<and>
         (length (snd (create_even_odd_lists (get_students_by_branch s)))
            \<le> sum_list (map odd_steps (rooms s)) \<and>
          length (fst (create_even_odd_lists (get_students_by_branch s)))
            \<le> sum_list (map even_steps (rooms s)) \<longrightarrow>
          mset (concat (map occupants (rooms (snd (allocate_seats s))))) = mset (students s) \<and>
          length (concat (map occupants (rooms (snd (allocate_seats s))))) = length (students s))"
proof -
  obtain even_list odd_list
    where q: "create_even_odd_lists (get_students_by_branch s) = (even_list, odd_list)"
    by (cases "create_even_odd_lists (get_students_by_branch s)")
  let ?O = "sum_list (map odd_steps (rooms s))"
  let ?E = "sum_list (map even_steps (rooms s))"
  have roster: "mset (queue_students even_list) + mset (queue_students odd_list) = mset (students s)"
    by (rule queues_students [OF q])
  have seated: "\<exists>rms'. allocate_seats s = (Inr True, s\<lparr>rooms := rms'\<rparr>) \<and>
                  mset (concat (map occupants rms')) =
                  mset (queue_students (take ?O odd_list)) + mset (queue_students (take ?E even_list))"
  proof (cases "even_list = [] \<and> odd_list = []")
    case True
    have "allocate_seats s = (Inr True, s\<lparr>rooms := map clear_all_seats (rooms s)\<rparr>)"
      using allocate_seats_accepted [OF gate q] True allocate_rooms_no_students by simp
    moreover have "concat (map occupants (map clear_all_seats (rooms s))) = []"
      by (induction "rooms s") (simp_all add: o_def)
    ultimately show ?thesis using True
      by (intro exI [of _ "map clear_all_seats (rooms s)"]) simp
  next
    case False
    from allocate_rooms_banded [OF multi False, of "rooms s" 0 0]
    obtain rms' where run: "allocate_rooms (length (get_students_by_branch s)) even_list odd_list
                              (rooms s) (0, 0) = (Inr (), rms', 0 + ?O, 0 + ?E)"
      and occ: "mset (concat (map occupants rms')) =
                  mset (queue_students (take ?O (drop 0 odd_list))) +
                  mset (queue_students (take ?E (drop 0 even_list)))"
      by blast
    have "allocate_seats s = (Inr True, s\<lparr>rooms := rms'\<rparr>)"
      by (rule allocate_seats_accepted [OF gate q run])
    then show ?thesis using occ by (intro exI [of _ rms']) simp
  qed
  then obtain rms' where run: "allocate_seats s = (Inr True, s\<lparr>rooms := rms'\<rparr>)"
    and occ: "mset (concat (map occupants rms')) =
                mset (queue_students (take ?O odd_list)) + mset (queue_students (take ?E even_list))"
    by blast
  have sub: "mset (concat (map occupants rms')) \<subseteq># mset (students s)"
  proof -
    have "mset (queue_students (take ?O odd_list)) + mset (queue_students (take ?E even_list))
          \<subseteq># mset (queue_students odd_list) + mset (queue_students even_list)"
      by (intro mset_subset_eq_mono_add taken_students_subset)
    then show ?thesis using occ roster by (simp add: add.commute)
  qed
  have all: "mset (concat (map occupants rms')) = mset (students s) \<and>
             length (concat (map occupants rms')) = length (students s)"
    if "length odd_list \<le> ?O" "length even_list \<le> ?E"
  proof -
    have eq: "mset (concat (map occupants rms')) = mset (students s)"
      using occ roster that by (simp add: add.commute)
    then show ?thesis by (metis size_mset)
  qed
  show ?thesis using run sub all q by simp
qed

section \<open>The banded walk\<close>

text \<open>
  C3, as stated, fails on which queue serves which band: with the roster ECE, CSE (ECE
  seen first, so queue A starts with the ECE group) and one room of one row and two
  columns, the column at position 1 holds the CSE student and the column at position 2
  the ECE student.
\<close>

theorem banded_walk_counterexample:
  "map fst (get_students_by_branch wide_room_session) = [Some ''ECE'', Some ''CSE''] \<and>
   create_even_odd_lists (get_students_by_branch wide_room_session) = ([Some ece1], [Some cse1]) \<and>
   fst (allocate_seats wide_room_session) = Inr True \<and>
   get_seat (rooms (snd (allocate_seats wide_room_session)) ! 0) 0 0 = Inr (Some cse1) \<and>
   get_seat (rooms (snd (allocate_seats wide_room_session)) ! 0) 0 1 = Inr (Some ece1)"
  by code_simp

text \<open>
  C3, amended. In every multi-branch allocation that passes the capacity gate, the branch
  groups are the branches in first-seen order, each with its students in roster order;
  \<^verbatim>\<open>even_list\<close> (queue A) starts with the first-seen group and \<^verbatim>\<open>odd_list\<close> (queue B)
  with the second-seen group. In each room the odd-positioned columns (1-based positions
  1, 3, 5, ..., i.e. an even 0-based index) are filled column-major, top to bottom, by
  consuming sequentially from \<^verbatim>\<open>odd_list\<close>, queue B, and the even-positioned columns
  from \<^verbatim>\<open>even_list\<close>, queue A; a placeholder or an exhausted queue leaves the seat
  empty. The two cursors run on from room to room within one call: a room is entered with
  the steps taken by the rooms before it.
\<close>

theorem banded_walk:
  assumes gate: "has_sufficient_capacity s"
    and multi: "1 < length (get_students_by_branch s)"
  shows "get_students_by_branch s =
           map (\<lambda>b. (b, filter (\<lambda>st. branch_name st = b) (students s)))
             (first_seen (map branch_name (students s))) \<and>
         prefix (map Some (snd (get_students_by_branch s ! 0)))
           (fst (create_even_odd_lists (get_students_by_branch s))) \<and>
         prefix (map Some (snd (get_students_by_branch s ! 1)))
           (snd (create_even_odd_lists (get_students_by_branch s))) \<and>
         fst (allocate_seats s) = Inr True \<and>
         length (rooms (snd (allocate_seats s))) = length (rooms s) \<and>
         (\<forall>j < length (rooms s). \<forall>row col.
            0 \<le> row \<and> row < rows (rooms s ! j) \<and> 0 \<le> col \<and> col < columns (rooms s ! j) \<longrightarrow>
            get_seat (rooms (snd (allocate_seats s)) ! j) row col =
              Inr (if even col
                   then qget (snd (create_even_odd_lists (get_students_by_branch s)))
                          (fst (band_cursors (rooms s) j)
                           + nat (col div 2) * nat (rows (rooms s ! j)) + nat row)
                   else qget (fst (create_even_odd_lists (get_students_by_branch s)))
                          (snd (band_cursors (rooms s) j)
                           + nat (col div 2) * nat (rows (rooms s ! j)) + nat row)))"
proof -
  obtain even_list odd_list
    where q: "create_even_odd_lists (get_students_by_branch s) = (even_list, odd_list)"
    by (cases "create_even_odd_lists (get_students_by_branch s)")
  have seats: "\<exists>rms'. allocate_seats s = (Inr True, s\<lparr>rooms := rms'\<rparr>) \<and>
                 length rms' = length (rooms s) \<and>
                 (\<forall>j < length (rooms s).
                    grid_ok (rms' ! j) \<and> rows (rms' ! j) = rows (rooms s ! j) \<and>
                    columns (rms' ! j) = columns (rooms s ! j) \<and>
                    (\<forall>row col. in_bounds (rooms s ! j) (row, col) \<longrightarrow>
                       cell (rms' ! j) (row, col) =
                       banded_seat even_list odd_list (band_cursors (rooms s) j) (rooms s ! j) row col))"
  proof (cases "even_list = [] \<and> odd_list = []")
    case True
    have run: "allocate_seats s = (Inr True, s\<lparr>rooms := map clear_all_seats (rooms s)\<rparr>)"
      using allocate_seats_accepted [OF gate q] True allocate_rooms_no_students by simp
    have "banded_seat [] [] i rm row col = None" for i rm row col
      by (simp add: banded_seat_def qget_def)
    then show ?thesis
      using run True
      by (intro exI [of _ "map clear_all_seats (rooms s)"])
        (simp add: grid_ok_clear cleared_cells)
  next
    case False
    from allocate_rooms_banded [OF multi False, of "rooms s" 0 0]
    obtain rms' where run: "allocate_rooms (length (get_students_by_branch s)) even_list odd_list
                              (rooms s) (0, 0) =
                            (Inr (), rms', 0 + sum_list (map odd_steps (rooms s)),
                                           0 + sum_list (map even_steps (rooms s)))"
      and len: "length rms' = length (rooms s)"
      and each: "\<forall>j < length (rooms s).
                   grid_ok (rms' ! j) \<and> rows (rms' ! j) = rows (rooms s ! j) \<and>
                   columns (rms' ! j) = columns (rooms s ! j) \<and>
                   room_no (rms' ! j) = room_no (rooms s ! j) \<and>
                   (\<forall>row col. in_bounds (rooms s ! j) (row, col) \<longrightarrow>
                      cell (rms' ! j) (row, col) =
                      banded_seat even_list odd_list
                        (0 + sum_list (map odd_steps (take j (rooms s))),
                         0 + sum_list (map even_steps (take j (rooms s)))) (rooms s ! j) row col)"
      by blast
    have "allocate_seats s = (Inr True, s\<lparr>rooms := rms'\<rparr>)"
      by (rule allocate_seats_accepted [OF gate q run])
    then show ?thesis
      using len each by (intro exI [of _ rms']) (simp add: band_cursors_def)
  qed
  then obtain rms' where run: "allocate_seats s = (Inr True, s\<lparr>rooms := rms'\<rparr>)"
    and len: "length rms' = length (rooms s)"
    and each: "\<forall>j < length (rooms s).
                 grid_ok (rms' ! j) \<and> rows (rms' ! j) = rows (rooms s ! j) \<and>
                 columns (rms' ! j) = columns (rooms s ! j) \<and>
                 (\<forall>row col. in_bounds (rooms s ! j) (row, col) \<longrightarrow>
                    cell (rms' ! j) (row, col) =
                    banded_seat even_list odd_list (band_cursors (rooms s) j) (rooms s ! j) row col)"
    by blast
  have read: "get_seat (rms' ! j) row col =
                Inr (banded_seat even_list odd_list (band_cursors (rooms s) j) (rooms s ! j) row col)"
    if j: "j < length (rooms s)"
      and b: "0 \<le> row \<and> row < rows (rooms s ! j) \<and> 0 \<le> col \<and> col < columns (rooms s ! j)"
    for j row col
  proof -
    from each j have ok: "grid_ok (rms' ! j)" and d: "rows (rms' ! j) = rows (rooms s ! j)"
      "columns (rms' ! j) = columns (rooms s ! j)"
      and c: "\<forall>row col. in_bounds (rooms s ! j) (row, col) \<longrightarrow>
                cell (rms' ! j) (row, col) =
                banded_seat even_list odd_list (band_cursors (rooms s) j) (rooms s ! j) row col"
      by blast+
    have "get_seat (rms' ! j) row col = Inr (seating_grid (rms' ! j) ! nat row ! nat col)"
      using b d by (intro get_seat_in_bounds [OF ok]) simp_all
    moreover have "in_bounds (rooms s ! j) (row, col)" using b by (simp add: in_bounds_def)
    ultimately show ?thesis using c by (simp add: cell_def)
  qed
  have heads: "prefix (map Some (snd (get_students_by_branch s ! 0))) even_list \<and>
               prefix (map Some (snd (get_students_by_branch s ! 1))) odd_list"
    using queue_heads [OF multi] q by simp
  show ?thesis
    using run len read heads q
    by (simp add: get_students_by_branch_first_seen [symmetric] banded_seat_def)
qed

theorem banded_walk_witness:
  "has_sufficient_capacity two_branch_session \<and>
   1 < length (get_students_by_branch two_branch_session) \<and>
   get_seat (rooms (snd (allocate_seats two_branch_session)) ! 0) 2 1 = Inr (Some ece3) \<and>
   get_seat (rooms (snd (allocate_seats two_branch_session)) ! 0) 1 0 = Inr (Some cse2) \<and>
   get_seat (rooms (snd (allocate_seats two_branch_session)) ! 0) 0 2 = Inr None"
proof -
  have gate: "has_sufficient_capacity two_branch_session" by code_simp
  have multi: "1 < length (get_students_by_branch two_branch_session)" by code_simp
  have q: "create_even_odd_lists (get_students_by_branch two_branch_session) =
             ([Some ece1, Some ece2, Some ece3], [Some cse1, Some cse2, Some cse3])"
    by code_simp
  have r: "rooms two_branch_session = [Room ''101'' 3 3]"
    by (simp add: two_branch_session_def)
  have c: "band_cursors [Room ''101'' 3 3] 0 = (0, 0)" by (simp add: band_cursors_def)
  have d: "rows (Room ''101'' 3 3) = 3" "columns (Room ''101'' 3 3) = 3"
    by (simp_all add: Room_def)
  from banded_walk [OF gate multi]
  have "\<forall>j < length (rooms two_branch_session). \<forall>row col.
          0 \<le> row \<and> row < rows (rooms two_branch_session ! j) \<and>
          0 \<le> col \<and> col < columns (rooms two_branch_session ! j) \<longrightarrow>
          get_seat (rooms (snd (allocate_seats two_branch_session)) ! j) row col =
            Inr (if even col
                 then qget (snd (create_even_odd_lists (get_students_by_branch two_branch_session)))
                        (fst (band_cursors (rooms two_branch_session) j)
                         + nat (col div 2) * nat (rows (rooms two_branch_session ! j)) + nat row)
                 else qget (fst (create_even_odd_lists (get_students_by_branch two_branch_session)))
                        (snd (band_cursors (rooms two_branch_session) j)
                         + nat (col div 2) * nat (rows (rooms two_branch_session ! j)) + nat row))"
    by blast
  then have seat: "0 \<le> row \<and> row < 3 \<and> 0 \<le> col \<and> col < 3 \<Longrightarrow>
      get_seat (rooms (snd (allocate_seats two_branch_session)) ! 0) row col =
        Inr (if even col
             then qget [Some cse1, Some cse2, Some cse3] (nat (col div 2) * 3 + nat row)
             else qget [Some ece1, Some ece2, Some ece3] (nat (col div 2) * 3 + nat row))"
    for row col
    by (simp add: q r c d)
  show ?thesis
    using gate multi seat [of 2 1] seat [of 1 0] seat [of 0 2]
    by (simp add: qget_def)
qed

section \<open>Rooms without seats\<close>





section \<open>The single-branch path\<close>

text \<open>
  C4. The single-branch path fills each room column-major in natural column order from
  the combined queue, but its cursor is a local variable that starts at 0 in every room,
  where the banded path keeps its cursors across rooms. With three students of one
  branch, a room of one row and two columns and a room of one row and one column, the
  capacity gate passes and the call returns success; the second room is filled from the
  head of the queue again, so the first student sits in both rooms and the third student
  has no seat.
\<close>

theorem sequential_cursor_restarts:
  "map fst (get_students_by_branch single_branch_two_rooms) = [Some ''CSE''] \<and>
   has_sufficient_capacity single_branch_two_rooms \<and>
   allocate_seats single_branch_two_rooms =
     (Inr True,
      single_branch_two_rooms
        \<lparr>rooms := [(Room ''101'' 1 2)\<lparr>seating_grid := [[Some cse1, Some cse2]]\<rparr>,
                   (Room ''102'' 1 1)\<lparr>seating_grid := [[Some cse1]]\<rparr>]\<rparr>)"
  by code_simp

section \<open>The two-branch scenario\<close>

text \<open>
  C6, as stated, fails on adjacency: with three ECE students followed by three CSE
  students and one room of three rows and three columns, the three CSE students fill the
  first column top to bottom, so the seats (0, 0) and (1, 0) share an edge and both hold
  CSE students; the ECE students are stacked in the second column in the same way.
\<close>

theorem two_branch_scenario_counterexample:
  "get_seat (rooms (snd (allocate_seats two_branch_session)) ! 0) 0 0 = Inr (Some cse1) \<and>
   get_seat (rooms (snd (allocate_seats two_branch_session)) ! 0) 1 0 = Inr (Some cse2) \<and>
   branch_name cse1 = Some ''CSE'' \<and> branch_name cse2 = Some ''CSE'' \<and>
   branch_shares_edge (rooms (snd (allocate_seats two_branch_session)) ! 0) ''CSE'' \<and>
   branch_shares_edge (rooms (snd (allocate_seats two_branch_session)) ! 0) ''ECE''"
  by code_simp

text \<open>
  C6, amended. For three ECE students followed by three CSE students and a single room of
  three rows and three columns, \<^verbatim>\<open>allocate_seats\<close> succeeds and produces a grid with
  exactly 6 occupied and 3 empty seats: the CSE students fill the first column top to
  bottom, the ECE students the second, and the third column is empty. No two seats
  occupied by ECE students and no two seats occupied by CSE students are side by side in
  a row.
\<close>

theorem two_branch_scenario:
  "allocate_seats two_branch_session =
     (Inr True,
      two_branch_session
        \<lparr>rooms := [(Room ''101'' 3 3)
                     \<lparr>seating_grid := [[Some cse1, Some ece1, None],
                                       [Some cse2, Some ece2, None],
                                       [Some cse3, Some ece3, None]]\<rparr>]\<rparr>) \<and>
   length (occupants (rooms (snd (allocate_seats two_branch_session)) ! 0)) = 6 \<and>
   get_empty_seats_count (rooms (snd (allocate_seats two_branch_session)) ! 0) = Inr 3 \<and>
   \<not> branch_side_by_side (rooms (snd (allocate_seats two_branch_session)) ! 0) ''ECE'' \<and>
   \<not> branch_side_by_side (rooms (snd (allocate_seats two_branch_session)) ! 0) ''CSE''"
  by code_simp

theorem two_branch_scenario_witness:
  "fst (allocate_seats two_branch_session) = Inr True \<and>
   length (occupants (rooms (snd (allocate_seats two_branch_session)) ! 0)) = 6"
  using two_branch_scenario by (metis fst_conv)

section \<open>Scanning a grid\<close>

lemma row_major_in_bounds:
  "p \<in> set (row_major (nat (rows rm)) (nat (columns rm))) \<Longrightarrow> in_bounds rm p"
  by (auto simp: row_major_def in_bounds_def)

lemma grid_cells_row_major:
  assumes ok: "grid_ok rm"
  shows "map (cell rm) (row_major (nat (rows rm)) (nat (columns rm))) = concat (seating_grid rm)"
proof -
  let ?g = "seating_grid rm"
  let ?R = "nat (rows rm)" and ?C = "nat (columns rm)"
  have len: "length ?g = ?R" using ok by (simp add: grid_ok_def)
  have row: "map (\<lambda>j. ?g ! i ! j) [0..<?C] = ?g ! i" if "i < ?R" for i
  proof -
    have "length (?g ! i) = ?C" by (rule grid_ok_row_length [OF ok that])
    then show ?thesis using map_nth [of "?g ! i"] by simp
  qed
  have "map (cell rm) (row_major ?R ?C) =
        concat (map (\<lambda>i. map (\<lambda>j. ?g ! i ! j) [0..<?C]) [0..<?R])"
    by (simp add: row_major_def List.product_concat_map map_concat cell_def o_def)
  also have "\<dots> = concat (map (\<lambda>i. ?g ! i) [0..<?R])"
    using row by (intro arg_cong [where f = concat] map_cong) simp_all
  also have "\<dots> = concat ?g"
    using map_nth [of ?g] len by simp
  finally show ?thesis .
qed

lemma scan_walk:
  assumes ok: "grid_ok rm" and inb: "\<forall>p \<in> set ps. in_bounds rm p"
  shows "for_each ps (scan_step step rm) acc =
         (Inr (), foldl (\<lambda>a seat. step seat a) acc (map (cell rm) ps))"
  using inb
proof (induction ps arbitrary: acc)
  case Nil
  then show ?case by simp
next
  case (Cons p ps)
  then have p: "in_bounds rm p" by simp
  have "get_seat rm (fst p) (snd p) = Inr (cell rm p)"
    using p get_seat_in_bounds [OF ok, of "fst p" "snd p"]
    by (simp add: in_bounds_def cell_def)
  then have "scan_step step rm p acc = (Inr (), step (cell rm p) acc)"
    by (simp add: scan_step_def)
  then show ?case using Cons by simp
qed

lemma scan_loop:
  "for_each (range0 R) (\<lambda>row. for_each (range0 C) (\<lambda>col. scan_step step rm (row, col))) acc =
   for_each (row_major (nat R) (nat C)) (scan_step step rm) acc"
  unfolding range0_nat row_major_def
  by (rule for_each_nested
      [where f = int and g = int and h = "\<lambda>col row. (row, col)" and F = "scan_step step rm"])

lemma scan_grid:
  assumes ok: "grid_ok rm"
  shows "for_each (range0 (rows rm)) (\<lambda>row.
           for_each (range0 (columns rm)) (\<lambda>col. scan_step step rm (row, col))) acc =
         (Inr (), foldl (\<lambda>a seat. step seat a) acc (concat (seating_grid rm)))"
proof -
  have "\<forall>p \<in> set (row_major (nat (rows rm)) (nat (columns rm))). in_bounds rm p"
    using row_major_in_bounds by blast
  from scan_walk [OF ok this] show ?thesis
    by (simp add: scan_loop grid_cells_row_major [OF ok])
qed

section \<open>Counting seats\<close>

lemma empty_scan_body:
  "(\<lambda>cnt. case is_seat_empty rm row col of
             Inl e \<Rightarrow> (Inl e, cnt)
           | Inr b \<Rightarrow> (Inr (), if b then cnt + 1 else cnt)) =
   scan_step (\<lambda>seat cnt. if seat = None then cnt + 1 else cnt) rm (row, col)"
  by (auto simp: fun_eq_iff scan_step_def is_seat_empty_def split: sum.splits)

lemma branch_scan_body:
  "(\<lambda>dist. case get_seat rm row col of
              Inl e \<Rightarrow> (Inl e, dist)
            | Inr seat \<Rightarrow> (Inr (), count_branch dist seat)) =
   scan_step (\<lambda>seat dist. count_branch dist seat) rm (row, col)"
  by (auto simp: fun_eq_iff scan_step_def split: sum.splits)

lemma count_empty_foldl:
  "foldl (\<lambda>cnt seat. if seat = None then cnt + 1 else cnt) (a::int) xs =
   a + int (length (filter (\<lambda>seat. seat = None) xs))"
  by (induction xs arbitrary: a) simp_all

lemma get_empty_seats_count_grid:
  assumes ok: "grid_ok rm"
  shows "get_empty_seats_count rm =
         Inr (int (length (filter (\<lambda>seat. seat = None) (concat (seating_grid rm)))))"
  unfolding get_empty_seats_count_def empty_scan_body
  by (simp add: scan_grid [OF ok] count_empty_foldl)

lemma seats_split:
  "length xs = length (filter (\<lambda>seat. seat = None) xs) + length (queue_students xs)"
proof (induction xs)
  case Nil
  then show ?case by simp
next
  case (Cons x xs)
  then show ?case by (cases x) simp_all
qed

lemma concat_length_rows:
  "\<forall>r \<in> set g. length r = c \<Longrightarrow> length (concat g) = length g * c"
  by (induction g) simp_all

lemma capacity_cells:
  assumes ok: "grid_ok rm" and r: "0 \<le> rows rm" and c: "0 \<le> columns rm"
  shows "capacity rm = int (length (concat (seating_grid rm)))"
proof -
  have "length (concat (seating_grid rm)) = nat (rows rm) * nat (columns rm)"
    using ok concat_length_rows [of "seating_grid rm" "nat (columns rm)"]
    by (simp add: grid_ok_def list_all_iff)
  then show ?thesis using r c by (simp add: capacity_def)
qed

section \<open>Counting branches\<close>

lemma update_count_sum:
  "map_of d k = Some n \<Longrightarrow>
   sum_list (map snd (AList.update k (n + 1) d)) = sum_list (map snd d) + (1::int)"
  by (induction d) (auto split: if_splits)

lemma count_branch_sum:
  "sum_list (map snd (count_branch d seat)) =
   sum_list (map snd d) +
   (case seat of None \<Rightarrow> 0 | Some st \<Rightarrow> if truthy (branch_name st) then 1 else 0)"
proof (cases seat)
  case None
  then show ?thesis by (simp add: count_branch_def)
next
  case (Some st)
  show ?thesis
  proof (cases "truthy (branch_name st)")
    case False
    then show ?thesis using Some by (simp add: count_branch_def)
  next
    case True
    let ?k = "branch_name st"
    show ?thesis
    proof (cases "map_of d ?k")
      case None
      have d0: "AList.update ?k 0 d = d @ [(?k, 0)]" by (rule update_absent [OF None])
      have look: "map_of (d @ [(?k, 0)]) ?k = Some 0" using None by (simp add: map_add_def)
      have "count_branch d seat = AList.update ?k (0 + 1) (d @ [(?k, 0)])"
        using Some True None d0 look by (simp add: count_branch_def)
      then show ?thesis
        using update_count_sum [OF look] Some True by simp
    next
      case (Some n)
      have "count_branch d seat = AList.update ?k (n + 1) d"
        using \<open>seat = Some st\<close> True Some by (simp add: count_branch_def)
      then show ?thesis
        using update_count_sum [OF Some] \<open>seat = Some st\<close> True by simp
    qed
  qed
qed

lemma count_branches_foldl:
  assumes "\<forall>st \<in> set (queue_students xs). truthy (branch_name st)"
  shows "sum_list (map snd (foldl count_branch d xs)) =
         sum_list (map snd d) + int (length (queue_students xs))"
  using assms
proof (induction xs arbitrary: d)
  case Nil
  then show ?case by simp
next
  case (Cons x xs)
  then show ?case by (cases x) (simp_all add: count_branch_sum)
qed

section \<open>Statistics of a room and of a session\<close>

lemma room_statistics_counts:
  assumes ok: "grid_ok rm" and r: "0 \<le> rows rm" and c: "0 \<le> columns rm"
    and named: "\<forall>st \<in> set (occupants rm). truthy (branch_name st)"
  shows "\<exists>rs. room_statistics rm = Inr rs \<and>
           assigned_seats rs = int (length (occupants rm)) \<and>
           sum_list (map snd (branch_distribution rs)) = int (length (occupants rm))"
proof -
  let ?cells = "concat (seating_grid rm)"
  let ?dist = "foldl count_branch [] ?cells"
  have e: "get_empty_seats_count rm = Inr (int (length (filter (\<lambda>seat. seat = None) ?cells)))"
    by (rule get_empty_seats_count_grid [OF ok])
  have run: "room_statistics rm =
               Inr \<lparr>stat_capacity = capacity rm,
                    assigned_seats = capacity rm - int (length (filter (\<lambda>seat. seat = None) ?cells)),
                    branch_distribution = ?dist\<rparr>"
    unfolding room_statistics_def branch_scan_body
    by (simp add: e scan_grid [OF ok])
  have "capacity rm - int (length (filter (\<lambda>seat. seat = None) ?cells)) =
        int (length (queue_students ?cells))"
    using capacity_cells [OF ok r c] seats_split [of ?cells] by simp
  moreover have "sum_list (map snd ?dist) = int (length (queue_students ?cells))"
    using count_branches_foldl [of ?cells "[]"] named by (simp add: occupants_def)
  ultimately show ?thesis
    using run by (simp add: occupants_def)
qed

lemma rooms_statistics_loop:
  assumes each: "\<forall>rm \<in> set rms. grid_ok rm \<and> 0 \<le> rows rm \<and> 0 \<le> columns rm \<and>
                   (\<forall>st \<in> set (occupants rm). truthy (branch_name st))"
    and dist: "distinct (map room_no rms)"
    and fresh: "\<forall>rm \<in> set rms. room_no rm \<notin> fst ` set acc"
  shows "\<exists>acc'. for_each rms (\<lambda>rm rstats.
                   case room_statistics rm of
                     Inl e \<Rightarrow> (Inl e, rstats)
                   | Inr rs \<Rightarrow> (Inr (), AList.update (room_no rm) rs rstats)) acc = (Inr (), acc') \<and>
           sum_list (map (\<lambda>(no, rs). assigned_seats rs) acc') =
             sum_list (map (\<lambda>(no, rs). assigned_seats rs) acc) +
             int (length (concat (map occupants rms))) \<and>
           sum_list (map (\<lambda>(no, rs). sum_list (map snd (branch_distribution rs))) acc') =
             sum_list (map (\<lambda>(no, rs). sum_list (map snd (branch_distribution rs))) acc) +
             int (length (concat (map occupants rms)))"
  using assms
proof (induction rms arbitrary: acc)
  case Nil
  then show ?case by simp
next
  case (Cons rm rms)
  from Cons.prems(1) have rm: "grid_ok rm" "0 \<le> rows rm" "0 \<le> columns rm"
    "\<forall>st \<in> set (occupants rm). truthy (branch_name st)" by simp_all
  from room_statistics_counts [OF rm]
  obtain rs where rs: "room_statistics rm = Inr rs"
    and a: "assigned_seats rs = int (length (occupants rm))"
    and b: "sum_list (map snd (branch_distribution rs)) = int (length (occupants rm))"
    by blast
  have absent: "map_of acc (room_no rm) = None"
    using Cons.prems(3) by (simp add: map_of_eq_None_iff)
  have upd: "AList.update (room_no rm) rs acc = acc @ [(room_no rm, rs)]"
    by (rule update_absent [OF absent])
  have each': "\<forall>rm \<in> set rms. grid_ok rm \<and> 0 \<le> rows rm \<and> 0 \<le> columns rm \<and>
                 (\<forall>st \<in> set (occupants rm). truthy (branch_name st))"
    using Cons.prems(1) by simp
  have dist': "distinct (map room_no rms)" using Cons.prems(2) by simp
  have fresh': "\<forall>rm' \<in> set rms. room_no rm' \<notin> fst ` set (acc @ [(room_no rm, rs)])"
  proof
    fix rm' assume m: "rm' \<in> set rms"
    have "room_no rm \<notin> set (map room_no rms)" using Cons.prems(2) by simp
    then have "room_no rm' \<noteq> room_no rm" using m by (metis image_eqI list.set_map)
    moreover have "room_no rm' \<notin> fst ` set acc" using Cons.prems(3) m by simp
    ultimately show "room_no rm' \<notin> fst ` set (acc @ [(room_no rm, rs)])" by auto
  qed
  from Cons.IH [OF each' dist' fresh']
  obtain acc' where run: "for_each rms (\<lambda>rm rstats.
                   case room_statistics rm of
                     Inl e \<Rightarrow> (Inl e, rstats)
                   | Inr rs \<Rightarrow> (Inr (), AList.update (room_no rm) rs rstats))
                 (acc @ [(room_no rm, rs)]) = (Inr (), acc')"
    and a': "sum_list (map (\<lambda>(no, rs). assigned_seats rs) acc') =
             sum_list (map (\<lambda>(no, rs). assigned_seats rs) (acc @ [(room_no rm, rs)])) +
             int (length (concat (map occupants rms)))"
    and b': "sum_list (map (\<lambda>(no, rs). sum_list (map snd (branch_distribution rs))) acc') =
             sum_list (map (\<lambda>(no, rs). sum_list (map snd (branch_distribution rs)))
                         (acc @ [(room_no rm, rs)])) +
             int (length (concat (map occupants rms)))"
    by blast
  show ?case
    using rs upd run a' b' a b by (intro exI [of _ acc']) simp
qed

text \<open>
  C8, as stated, fails when a seated student has an empty branch label: the grid scan
  counts a seat for a branch only if \<^verbatim>\<open>student.branch_name\<close> is true. One student whose
  hall ticket carries the unknown branch code 99 gets the empty label, is seated by
  \<^verbatim>\<open>allocate_seats\<close> in a 1x1 room, and the statistics then report one assigned seat and
  no branch occupancy at all.
\<close>

theorem statistics_round_trip_counterexample:
  "branch_name unknown_student = Some '''' \<and>
   fst (allocate_seats unknown_branch_session) = Inr True \<and>
   map_sum id branch_occupancy_total
     (generate_statistics (snd (allocate_seats unknown_branch_session))) = Inr 0 \<and>
   map_sum id assigned_seats_total
     (generate_statistics (snd (allocate_seats unknown_branch_session))) = Inr 1 \<and>
   seated_total (snd (allocate_seats unknown_branch_session)) = 1"
  by code_simp

text \<open>
  C8, amended. For every session whose rooms have distinct room numbers, non-negative
  dimensions and grids of those dimensions, and in which every seated student has a
  non-empty branch label, \<^verbatim>\<open>generate_statistics\<close> returns normally, the sum of the
  per-branch occupancy counts over all rooms equals the sum of the per-room occupied-seat
  counts (capacity minus empty seats), and both equal the number of students seated across
  all grids.
\<close>

theorem statistics_round_trip:
  assumes rooms_ok: "\<forall>rm \<in> set (rooms s). grid_ok rm \<and> 0 \<le> rows rm \<and> 0 \<le> columns rm"
    and numbers: "distinct (map room_no (rooms s))"
    and named: "\<forall>rm \<in> set (rooms s). \<forall>st \<in> set (occupants rm). truthy (branch_name st)"
  shows "\<exists>st. generate_statistics s = Inr st \<and>
           branch_occupancy_total st = assigned_seats_total st \<and>
           assigned_seats_total st = seated_total s"
proof -
  have each: "\<forall>rm \<in> set (rooms s). grid_ok rm \<and> 0 \<le> rows rm \<and> 0 \<le> columns rm \<and>
                (\<forall>st \<in> set (occupants rm). truthy (branch_name st))"
    using rooms_ok named by blast
  have fresh: "\<forall>rm \<in> set (rooms s). room_no rm \<notin> fst ` set ([] :: (string, room_stats) dict)"
    by simp
  from rooms_statistics_loop [OF each numbers fresh]
  obtain rstats where run: "for_each (rooms s) (\<lambda>rm rstats.
                   case room_statistics rm of
                     Inl e \<Rightarrow> (Inl e, rstats)
                   | Inr rs \<Rightarrow> (Inr (), AList.update (room_no rm) rs rstats)) [] = (Inr (), rstats)"
    and a: "sum_list (map (\<lambda>(no, rs). assigned_seats rs) rstats) =
              int (length (concat (map occupants (rooms s))))"
    and b: "sum_list (map (\<lambda>(no, rs). sum_list (map snd (branch_distribution rs))) rstats) =
              int (length (concat (map occupants (rooms s))))"
    by auto
  let ?st = "\<lparr>total_students = int (length (students s)),
             total_rooms = int (length (rooms s)),
             total_capacity = get_total_capacity s,
             rooms_stats = rstats,
             branch_stats = foldl (\<lambda>d (branch, sts). AList.update branch (int (length sts)) d) []
                              (get_students_by_branch s)\<rparr>"
  have "generate_statistics s = Inr ?st"
    using run by (simp add: generate_statistics_def Let_def)
  moreover have "assigned_seats_total ?st = seated_total s"
    using a by (simp add: assigned_seats_total_def seated_total_def)
  moreover have "branch_occupancy_total ?st = seated_total s"
    using b by (simp add: branch_occupancy_total_def seated_total_def)
  ultimately show ?thesis by simp
qed

theorem statistics_round_trip_witness:
  "distinct (map room_no (rooms (snd (allocate_seats two_branch_session)))) \<and>
   (\<exists>st. generate_statistics (snd (allocate_seats two_branch_session)) = Inr st \<and>
         branch_occupancy_total st = 6 \<and> assigned_seats_total st = 6)"
proof -
  have rooms_ok: "\<forall>rm \<in> set (rooms (snd (allocate_seats two_branch_session))).
                    grid_ok rm \<and> 0 \<le> rows rm \<and> 0 \<le> columns rm"
    by code_simp
  have numbers: "distinct (map room_no (rooms (snd (allocate_seats two_branch_session))))"
    by code_simp
  have named: "\<forall>rm \<in> set (rooms (snd (allocate_seats two_branch_session))).
                 \<forall>st \<in> set (occupants rm). truthy (branch_name st)"
    by code_simp
  have total: "seated_total (snd (allocate_seats two_branch_session)) = 6"
    by code_simp
  show ?thesis
    using statistics_round_trip [OF rooms_ok numbers named] rooms_ok numbers named total
    by auto
qed

end
